theory Spec2Isabelle
  imports Main "HOL-Library.AList" "HOL-Library.Sublist" "HOL-Library.Word"
begin

section \<open>Paths, identifiers and errors\<close>

text \<open>
  A store path is kept as the list of its components below the root: \<open>"/"\<close> (and the
  empty string, which \<open>asFsPath\<close> and the search providers replace by \<open>"/"\<close>) is \<open>[]\<close>,
  \<open>"/a/b"\<close> is \<open>[''a'', ''b'']\<close>.  \<open>path.join(p, e)\<close> and \<open>Uri.joinPath(u, e)\<close> with a
  directory entry \<open>e\<close> append one component, \<open>path.dirname\<close> drops the last one.
\<close>

type_synonym path = "string list"

type_synonym byte = "8 word"

type_synonym bytes = "byte list"

record Uri =
  scheme :: string
  path :: path

definition joinPath :: "Uri \<Rightarrow> string \<Rightarrow> Uri" where
  "joinPath u name = u\<lparr>path := path u @ [name]\<rparr>"

definition path_join :: "path \<Rightarrow> string \<Rightarrow> path" where
  "path_join folderPath entry = folderPath @ [entry]"

definition dirname :: "path \<Rightarrow> path" where
  "dirname p = butlast p"

definition path_toString :: "path \<Rightarrow> string" where
  "path_toString p = (if p = [] then ''/'' else concat (map (\<lambda>c. ''/'' @ c) p))"

definition uri_toString :: "Uri \<Rightarrow> string" where
  "uri_toString u = scheme u @ '':'' @ path_toString (path u)"

text \<open>\<open>vscode.Uri.parse(`${scheme}:${path}`)\<close> for a path of the store.\<close>

definition Uri_parse :: "string \<Rightarrow> path \<Rightarrow> Uri" where
  "Uri_parse sch p = \<lparr>scheme = sch, path = p\<rparr>"

text \<open>The error codes of the backing store that the code distinguishes, and some others.\<close>

datatype errno = ENOENT | EEXIST | EISDIR | ENOTDIR | ENOTEMPTY | EINVAL | EBUSY

fun errno_message :: "errno \<Rightarrow> string" where
  "errno_message ENOENT = ''ENOENT''"
| "errno_message EEXIST = ''EEXIST''"
| "errno_message EISDIR = ''EISDIR''"
| "errno_message ENOTDIR = ''ENOTDIR''"
| "errno_message ENOTEMPTY = ''ENOTEMPTY''"
| "errno_message EINVAL = ''EINVAL''"
| "errno_message EBUSY = ''EBUSY''"

text \<open>The closed taxonomy of \<open>vscode.FileSystemError\<close> that the provider raises.\<close>

datatype FileSystemError =
    FileNotFound Uri
  | FileExists Uri
  | FileIsADirectory Uri
  | Unavailable string

text \<open>
  What a \<open>try\<close> block of the provider can catch: an error of the backing store, which
  carries an errno code, or a \<open>FileSystemError\<close> the provider threw itself, whose
  \<open>code\<close> is the name of its kind and whose message is the identifier.
\<close>

datatype thrown = Errno errno | Thrown FileSystemError

fun FileSystemError_message :: "FileSystemError \<Rightarrow> string" where
  "FileSystemError_message (FileNotFound u) = uri_toString u"
| "FileSystemError_message (FileExists u) = uri_toString u"
| "FileSystemError_message (FileIsADirectory u) = uri_toString u"
| "FileSystemError_message (Unavailable m) = m"

fun toFileSystemError :: "thrown \<Rightarrow> Uri \<Rightarrow> FileSystemError" where
  "toFileSystemError (Errno ENOENT) uri = FileNotFound uri"
| "toFileSystemError (Errno EEXIST) uri = FileExists uri"
| "toFileSystemError (Errno EISDIR) uri = FileIsADirectory uri"
| "toFileSystemError (Errno ENOTDIR) uri = FileNotFound uri"
| "toFileSystemError (Errno e) uri = Unavailable (errno_message e)"
| "toFileSystemError (Thrown err) uri = Unavailable (FileSystemError_message err)"

definition asFsPath :: "string \<Rightarrow> Uri \<Rightarrow> FileSystemError + path" where
  "asFsPath this_scheme uri =
     (if scheme uri \<noteq> this_scheme
      then Inl (Unavailable (''Unsupported scheme: '' @ scheme uri))
      else Inr (path uri))"

section \<open>The backing store\<close>

text \<open>
  Modelled from the spec: the backing store (the \<open>fs\<close> object of \<open>@zenfs/core\<close>) is an
  external collaborator of which the repository holds only the calls.  The spec lists its
  primitives (existence check, stat, directory listing, read, write with exclusive or
  truncating mode, recursive mkdir, recursive remove with force, rename) and the codes of
  their failures.  It is modelled as a tree of named entries: a directory lists its
  entries in the order the store returns them, a file holds its bytes, and an entry may
  be of a kind that is neither (a symbolic link, or something else).
\<close>

datatype node =
    File bytes
  | Directory "(string \<times> node) list"
  | SymbolicLink
  | Other

type_synonym store = node

datatype Stats = S_IFREG | S_IFDIR | S_IFLNK | S_IFOTHER

fun isFile :: "Stats \<Rightarrow> bool" where
  "isFile st = (st = S_IFREG)"

fun isDirectory :: "Stats \<Rightarrow> bool" where
  "isDirectory st = (st = S_IFDIR)"

fun isSymbolicLink :: "Stats \<Rightarrow> bool" where
  "isSymbolicLink st = (st = S_IFLNK)"

fun node_stats :: "node \<Rightarrow> Stats" where
  "node_stats (File _) = S_IFREG"
| "node_stats (Directory _) = S_IFDIR"
| "node_stats SymbolicLink = S_IFLNK"
| "node_stats Other = S_IFOTHER"

text \<open>
  Modelled from the spec: how the store finds the entry of a path, from the root.  A
  missing component is \<open>ENOENT\<close> (not-found), a component below something that is not a
  directory is \<open>ENOTDIR\<close> (not-a-directory).
\<close>

fun resolve :: "node \<Rightarrow> path \<Rightarrow> errno + node" where
  "resolve n [] = Inr n"
| "resolve (Directory es) (x # xs) =
     (case map_of es x of None \<Rightarrow> Inl ENOENT | Some c \<Rightarrow> resolve c xs)"
| "resolve _ (x # xs) = Inl ENOTDIR"

definition lookup :: "node \<Rightarrow> path \<Rightarrow> node option" where
  "lookup n p = (case resolve n p of Inl _ \<Rightarrow> None | Inr c \<Rightarrow> Some c)"

text \<open>
  Modelled from the spec: how the store changes.  \<open>put t p n\<close> stores \<open>n\<close> at \<open>p\<close>, in
  place when \<open>p\<close> exists and as a new last entry of its parent directory otherwise;
  \<open>del t p\<close> removes the entry at \<open>p\<close> with all below it.  Both leave the tree as it is
  when the parent of \<open>p\<close> is not an existing directory.
\<close>

fun put :: "node \<Rightarrow> path \<Rightarrow> node \<Rightarrow> node" where
  "put t [] n = n"
| "put (Directory es) [x] n = Directory (AList.update x n es)"
| "put (Directory es) (x # xs) n =
     (case map_of es x of
        None \<Rightarrow> Directory es
      | Some c \<Rightarrow> Directory (AList.update x (put c xs n) es))"
| "put t (x # xs) n = t"

fun del :: "node \<Rightarrow> path \<Rightarrow> node" where
  "del t [] = t"
| "del (Directory es) [x] = Directory (AList.delete x es)"
| "del (Directory es) (x # xs) =
     (case map_of es x of
        None \<Rightarrow> Directory es
      | Some c \<Rightarrow> Directory (AList.update x (del c xs) es))"
| "del t (x # xs) = t"

text \<open>
  Modelled from the spec: the existence check, stat, the directory listing (the names
  of the entries, in the order of the store) and read, which fails on a directory with
  \<open>EISDIR\<close> (is-a-directory).
\<close>

definition fs_exists :: "store \<Rightarrow> path \<Rightarrow> bool" where
  "fs_exists s p = (lookup s p \<noteq> None)"

definition fs_stat :: "store \<Rightarrow> path \<Rightarrow> errno + Stats" where
  "fs_stat s p = (case resolve s p of Inl e \<Rightarrow> Inl e | Inr n \<Rightarrow> Inr (node_stats n))"

definition fs_readdir :: "store \<Rightarrow> path \<Rightarrow> errno + string list" where
  "fs_readdir s p =
     (case resolve s p of
        Inl e \<Rightarrow> Inl e
      | Inr (Directory es) \<Rightarrow> Inr (map fst es)
      | Inr _ \<Rightarrow> Inl ENOTDIR)"

definition fs_readFile :: "store \<Rightarrow> path \<Rightarrow> errno + bytes" where
  "fs_readFile s p =
     (case resolve s p of
        Inl e \<Rightarrow> Inl e
      | Inr (File content) \<Rightarrow> Inr content
      | Inr (Directory _) \<Rightarrow> Inl EISDIR
      | Inr _ \<Rightarrow> Inl EINVAL)"

text \<open>
  Modelled from the spec: write, in the two modes the provider uses.  \<open>"w"\<close> creates the
  file or truncates it (truncating write), \<open>"wx"\<close> creates it and fails with \<open>EEXIST\<close>
  when the path exists (exclusive create).  Neither creates a missing parent directory,
  and neither writes over a directory.
\<close>

datatype flag = W | WX

definition fs_writeFile :: "store \<Rightarrow> path \<Rightarrow> bytes \<Rightarrow> flag \<Rightarrow> errno + store" where
  "fs_writeFile s p content flg =
     (case lookup s p of
        Some n \<Rightarrow>
          (if flg = WX then Inl EEXIST
           else case n of
                  File _ \<Rightarrow> Inr (put s p (File content))
                | Directory _ \<Rightarrow> Inl EISDIR
                | _ \<Rightarrow> Inl EINVAL)
      | None \<Rightarrow>
          (case resolve s (dirname p) of
             Inl e \<Rightarrow> Inl e
           | Inr (Directory _) \<Rightarrow> Inr (put s p (File content))
           | Inr _ \<Rightarrow> Inl ENOTDIR))"

text \<open>
  Modelled from the spec: the recursive mkdir, \<open>fs.mkdir(p, {recursive: true})\<close>.  It
  creates every missing directory on the way, and does nothing when the directory exists.
\<close>

fun mkdirp :: "node \<Rightarrow> path \<Rightarrow> errno + node" where
  "mkdirp (Directory es) [] = Inr (Directory es)"
| "mkdirp n [] = Inl EEXIST"
| "mkdirp (Directory es) (x # xs) =
     (case map_of es x of
        None \<Rightarrow>
          (case mkdirp (Directory []) xs of
             Inl e \<Rightarrow> Inl e
           | Inr c \<Rightarrow> Inr (Directory (AList.update x c es)))
      | Some c \<Rightarrow>
          (case mkdirp c xs of
             Inl e \<Rightarrow> Inl e
           | Inr c' \<Rightarrow> Inr (Directory (AList.update x c' es))))"
| "mkdirp n (x # xs) = Inl ENOTDIR"

definition fs_mkdir :: "store \<Rightarrow> path \<Rightarrow> errno + store" where
  "fs_mkdir s p = mkdirp s p"

text \<open>
  Modelled from the spec: remove, \<open>fs.rm(p, {force, recursive})\<close>.  With \<open>force\<close>, a
  target that does not exist is not a failure.  A directory that has entries is removed
  only with \<open>recursive\<close>.  The root itself is not removable.
\<close>

definition fs_rm :: "store \<Rightarrow> path \<Rightarrow> bool \<Rightarrow> bool \<Rightarrow> errno + store" where
  "fs_rm s p force recursive =
     (case resolve s p of
        Inl e \<Rightarrow> (if force then Inr s else Inl e)
      | Inr n \<Rightarrow>
          (if p = [] then Inl EBUSY
           else case n of
                  Directory es \<Rightarrow>
                    (if recursive \<or> es = [] then Inr (del s p) else Inl ENOTEMPTY)
                | _ \<Rightarrow> Inr (del s p)))"

text \<open>
  Modelled from the spec: rename.
  \<open>fs.rename(old, new)\<close> moves the entry at \<open>old\<close>, with all below it, to \<open>new\<close>.  It fails
  when \<open>old\<close> is missing, when the parent of \<open>new\<close> is not an existing directory and when
  \<open>new\<close> lies below \<open>old\<close>; an entry at \<open>new\<close> is replaced when it is of the same sort (a
  directory only when it is empty).
\<close>

definition fs_rename :: "store \<Rightarrow> path \<Rightarrow> path \<Rightarrow> errno + store" where
  "fs_rename s old new =
     (case resolve s old of
        Inl e \<Rightarrow> Inl e
      | Inr n \<Rightarrow>
          (if old = [] then Inl EBUSY
           else if old = new then Inr s
           else if prefix old new then Inl EINVAL
           else case lookup s new of
                  None \<Rightarrow>
                    (case resolve s (dirname new) of
                       Inl e \<Rightarrow> Inl e
                     | Inr (Directory _) \<Rightarrow> Inr (put (del s old) new n)
                     | Inr _ \<Rightarrow> Inl ENOTDIR)
                | Some (Directory es) \<Rightarrow>
                    (if node_stats n \<noteq> S_IFDIR then Inl EISDIR
                     else if es \<noteq> [] then Inl ENOTEMPTY
                     else Inr (put (del s old) new n))
                | Some _ \<Rightarrow>
                    (if node_stats n = S_IFDIR then Inl ENOTDIR
                     else Inr (put (del s old) new n))))"

section \<open>The file system provider\<close>

text \<open>
  \<open>MemFS\<close>.  Every method takes the provider's scheme and the store.  A method that only
  reads returns the \<open>FileSystemError\<close> it raises (\<open>Inl\<close>) or its value; a method that
  writes returns the error it raises, if any, together with the store it leaves behind.
  Of the \<open>FileStat\<close> that \<open>stat\<close> returns, the type is kept; the store of the model
  holds no times.
\<close>

datatype FileType = FileType_File | FileType_Directory | FileType_SymbolicLink | FileType_Unknown

definition toFileType :: "Stats \<Rightarrow> FileType" where
  "toFileType stats =
     (if isFile stats then FileType_File
      else if isDirectory stats then FileType_Directory
      else if isSymbolicLink stats then FileType_SymbolicLink
      else FileType_Unknown)"

definition stat :: "string \<Rightarrow> store \<Rightarrow> Uri \<Rightarrow> FileSystemError + FileType" where
  "stat this_scheme s uri =
     (case asFsPath this_scheme uri of
        Inl err \<Rightarrow> Inl err
      | Inr fsPath \<Rightarrow>
          (case fs_stat s fsPath of
             Inl e \<Rightarrow> Inl (toFileSystemError (Errno e) uri)
           | Inr stats \<Rightarrow> Inr (toFileType stats)))"

definition readFile :: "string \<Rightarrow> store \<Rightarrow> Uri \<Rightarrow> FileSystemError + bytes" where
  "readFile this_scheme s uri =
     (case asFsPath this_scheme uri of
        Inl err \<Rightarrow> Inl err
      | Inr fsPath \<Rightarrow>
          (case fs_readFile s fsPath of
             Inl e \<Rightarrow> Inl (toFileSystemError (Errno e) uri)
           | Inr data \<Rightarrow> Inr data))"

record write_options =
  create :: bool
  overwrite :: bool

definition writeFile ::
  "string \<Rightarrow> store \<Rightarrow> Uri \<Rightarrow> bytes \<Rightarrow> write_options \<Rightarrow> FileSystemError option \<times> store" where
  "writeFile this_scheme s uri content options =
     (case asFsPath this_scheme uri of
        Inl err \<Rightarrow> (Some err, s)
      | Inr fsPath \<Rightarrow>
          (if \<not> fs_exists s fsPath \<and> \<not> create options then (Some (FileNotFound uri), s)
           else case fs_writeFile s fsPath content (if overwrite options then W else WX) of
                  Inl e \<Rightarrow> (Some (toFileSystemError (Errno e) uri), s)
                | Inr s' \<Rightarrow> (None, s')))"

definition delete :: "string \<Rightarrow> store \<Rightarrow> Uri \<Rightarrow> bool \<Rightarrow> FileSystemError option \<times> store" where
  "delete this_scheme s uri recursive =
     (case asFsPath this_scheme uri of
        Inl err \<Rightarrow> (Some err, s)
      | Inr fsPath \<Rightarrow>
          (case fs_rm s fsPath True recursive of
             Inl e \<Rightarrow> (Some (toFileSystemError (Errno e) uri), s)
           | Inr s' \<Rightarrow> (None, s')))"

definition rename ::
  "string \<Rightarrow> store \<Rightarrow> Uri \<Rightarrow> Uri \<Rightarrow> bool \<Rightarrow> FileSystemError option \<times> store" where
  "rename this_scheme s oldUri newUri overwrite_opt =
     (case asFsPath this_scheme oldUri of
        Inl err \<Rightarrow> (Some err, s)
      | Inr oldPath \<Rightarrow>
          (case asFsPath this_scheme newUri of
             Inl err \<Rightarrow> (Some err, s)
           | Inr newPath \<Rightarrow>
               (case (if overwrite_opt \<and> fs_exists s newPath
                      then fs_rm s newPath True True else Inr s) of
                  Inl e \<Rightarrow> (Some (toFileSystemError (Errno e) oldUri), s)
                | Inr s1 \<Rightarrow>
                    (case fs_rename s1 oldPath newPath of
                       Inl e \<Rightarrow> (Some (toFileSystemError (Errno e) oldUri), s1)
                     | Inr s2 \<Rightarrow> (None, s2)))))"

definition createDirectory :: "string \<Rightarrow> store \<Rightarrow> Uri \<Rightarrow> FileSystemError option \<times> store" where
  "createDirectory this_scheme s uri =
     (case asFsPath this_scheme uri of
        Inl err \<Rightarrow> (Some err, s)
      | Inr fsPath \<Rightarrow>
          (case fs_mkdir s fsPath of
             Inl e \<Rightarrow> (Some (toFileSystemError (Errno e) uri), s)
           | Inr s' \<Rightarrow> (None, s')))"

definition ensureParentDirectory :: "store \<Rightarrow> path \<Rightarrow> errno + store" where
  "ensureParentDirectory s fsPath =
     (let parent = dirname fsPath
      in if parent \<noteq> fsPath \<and> \<not> fs_exists s parent then fs_mkdir s parent else Inr s)"

text \<open>
  \<open>copyDirectory\<close> calls itself for every directory below the source.  Its recursion need
  not end (the destination may lie below the source), so the model bounds the depth of
  the recursion by \<open>fuel\<close>: \<open>None\<close> says that the bound was reached.  Otherwise the result
  is what was thrown, if anything, and the store left behind.  The loop over the entries
  of the source directory is \<open>copyEntries\<close>.
\<close>

fun copyDirectory ::
  "nat \<Rightarrow> string \<Rightarrow> store \<Rightarrow> Uri \<Rightarrow> Uri \<Rightarrow> bool \<Rightarrow> (thrown option \<times> store) option"
and copyEntries ::
  "nat \<Rightarrow> string \<Rightarrow> store \<Rightarrow> Uri \<Rightarrow> Uri \<Rightarrow> bool \<Rightarrow> string list \<Rightarrow> (thrown option \<times> store) option"
where
  "copyDirectory 0 this_scheme s source destination overwrite_opt = None"
| "copyDirectory (Suc fuel) this_scheme s source destination overwrite_opt =
     (case asFsPath this_scheme source of
        Inl err \<Rightarrow> Some (Some (Thrown err), s)
      | Inr sourcePath \<Rightarrow>
     (case asFsPath this_scheme destination of
        Inl err \<Rightarrow> Some (Some (Thrown err), s)
      | Inr destPath \<Rightarrow>
     (case (if \<not> fs_exists s destPath then fs_mkdir s destPath else Inr s) of
        Inl e \<Rightarrow> Some (Some (Errno e), s)
      | Inr s1 \<Rightarrow>
     (case fs_readdir s1 sourcePath of
        Inl e \<Rightarrow> Some (Some (Errno e), s1)
      | Inr entries \<Rightarrow>
          copyEntries fuel this_scheme s1 source destination overwrite_opt entries))))"
| "copyEntries fuel this_scheme s source destination overwrite_opt [] = Some (None, s)"
| "copyEntries fuel this_scheme s source destination overwrite_opt (entry # entries) =
     (case asFsPath this_scheme (joinPath source entry) of
        Inl err \<Rightarrow> Some (Some (Thrown err), s)
      | Inr childSourcePath \<Rightarrow>
     (case fs_stat s childSourcePath of
        Inl e \<Rightarrow> Some (Some (Errno e), s)
      | Inr stats \<Rightarrow>
          if isDirectory stats then
            (case copyDirectory fuel this_scheme s (joinPath source entry)
                    (joinPath destination entry) overwrite_opt of
               None \<Rightarrow> None
             | Some (Some t, s') \<Rightarrow> Some (Some t, s')
             | Some (None, s') \<Rightarrow>
                 copyEntries fuel this_scheme s' source destination overwrite_opt entries)
          else
            (case fs_readFile s childSourcePath of
               Inl e \<Rightarrow> Some (Some (Errno e), s)
             | Inr data \<Rightarrow>
            (case asFsPath this_scheme (joinPath destination entry) of
               Inl err \<Rightarrow> Some (Some (Thrown err), s)
             | Inr childDestinationPath \<Rightarrow>
            (case fs_writeFile s childDestinationPath data W of
               Inl e \<Rightarrow> Some (Some (Errno e), s)
             | Inr s' \<Rightarrow>
                 copyEntries fuel this_scheme s' source destination overwrite_opt entries)))))"

text \<open>The body of the \<open>try\<close> block of \<open>copy\<close>, and \<open>copy\<close> with its \<open>catch\<close>.\<close>

definition copy_try ::
  "nat \<Rightarrow> string \<Rightarrow> store \<Rightarrow> Uri \<Rightarrow> Uri \<Rightarrow> path \<Rightarrow> path \<Rightarrow> bool \<Rightarrow> (thrown option \<times> store) option" where
  "copy_try fuel this_scheme s source destination sourcePath destPath overwrite_opt =
     (if \<not> fs_exists s sourcePath then Some (Some (Thrown (FileNotFound source)), s)
      else if fs_exists s destPath \<and> \<not> overwrite_opt
      then Some (Some (Thrown (FileExists destination)), s)
      else case ensureParentDirectory s destPath of
        Inl e \<Rightarrow> Some (Some (Errno e), s)
      | Inr s1 \<Rightarrow>
     (case fs_stat s1 sourcePath of
        Inl e \<Rightarrow> Some (Some (Errno e), s1)
      | Inr stats \<Rightarrow>
          if isDirectory stats
          then copyDirectory fuel this_scheme s1 source destination overwrite_opt
          else
            (case fs_readFile s1 sourcePath of
               Inl e \<Rightarrow> Some (Some (Errno e), s1)
             | Inr data \<Rightarrow>
            (case fs_writeFile s1 destPath data W of
               Inl e \<Rightarrow> Some (Some (Errno e), s1)
             | Inr s2 \<Rightarrow> Some (None, s2)))))"

definition copy ::
  "nat \<Rightarrow> string \<Rightarrow> store \<Rightarrow> Uri \<Rightarrow> Uri \<Rightarrow> bool \<Rightarrow> (FileSystemError option \<times> store) option" where
  "copy fuel this_scheme s source destination overwrite_opt =
     (case asFsPath this_scheme source of
        Inl err \<Rightarrow> Some (Some err, s)
      | Inr sourcePath \<Rightarrow>
     (case asFsPath this_scheme destination of
        Inl err \<Rightarrow> Some (Some err, s)
      | Inr destPath \<Rightarrow>
     (case copy_try fuel this_scheme s source destination sourcePath destPath overwrite_opt of
        None \<Rightarrow> None
      | Some (None, s') \<Rightarrow> Some (None, s')
      | Some (Some t, s') \<Rightarrow> Some (Some (toFileSystemError t source), s'))))"

section \<open>The search providers\<close>

text \<open>
  Both providers walk the store depth first, by the paths that \<open>fs.readdir\<close> and
  \<open>fs.stat\<close> give them.  The walk ends because every directory it descends into is a
  proper part of the one it comes from; \<open>tsize\<close> measures that.
\<close>

lemma resolve_append:
  "resolve t (p @ q) = (case resolve t p of Inl e \<Rightarrow> Inl e | Inr n \<Rightarrow> resolve n q)"
  by (induction t p rule: resolve.induct) (auto split: option.splits)

lemma size_map_of: "map_of es x = Some c \<Longrightarrow> size c < size (Directory es)"
  by (induction es) (auto split: if_splits)

definition tsize :: "store \<Rightarrow> path \<Rightarrow> nat" where
  "tsize s p = (case resolve s p of Inl _ \<Rightarrow> 0 | Inr n \<Rightarrow> size n)"

lemma resolve_size: "resolve t p = Inr n \<Longrightarrow> p \<noteq> [] \<Longrightarrow> size n < size t"
proof (induction t p rule: resolve.induct)
  case (2 es x xs)
  then show ?case
    by (cases xs) (auto split: option.splits dest!: size_map_of)
qed auto

lemma tsize_child:
  "fs_stat s (path_join p e) = Inr stats \<Longrightarrow> tsize s (path_join p e) < tsize s p"
  by (auto simp: fs_stat_def tsize_def path_join_def resolve_append split: sum.splits dest: resolve_size)

text \<open>
  The cancellation token is read by polling.  What a poll returns may change between two
  polls, so the token is a function of the number of polls made so far, and the state of
  a search counts its polls.
\<close>

record poll_state =
  polls :: nat

type_synonym CancellationToken = "nat \<Rightarrow> bool"

definition isCancellationRequested :: "CancellationToken \<Rightarrow> 'a poll_state_scheme \<Rightarrow> bool" where
  "isCancellationRequested token st = token (polls st)"

definition polled :: "'a poll_state_scheme \<Rightarrow> 'a poll_state_scheme" where
  "polled st = st\<lparr>polls := Suc (polls st)\<rparr>"

text \<open>
  The options of a search: the folders to search (\<open>options.includes\<close>, which may be
  absent) and the result cap, which may be absent too.  \<open>limit_reached\<close> is the test
  \<open>options.maxResults && n >= options.maxResults\<close>, in which a cap of 0 counts as absent.
\<close>

record SearchOptions =
  includePaths :: "Uri list option"
  maxResults :: "nat option"

definition limit_reached :: "SearchOptions \<Rightarrow> nat \<Rightarrow> bool" where
  "limit_reached options n = (case maxResults options of None \<Rightarrow> False | Some m \<Rightarrow> m \<noteq> 0 \<and> m \<le> n)"

text \<open>
  Strings are lists of 8-bit characters; \<open>toLowerCase\<close> lowers the letters A to Z.
  \<open>indexOf\<close> is \<open>String.prototype.indexOf\<close>: the position is clamped to the length of the
  string, and the result is the first index from there at which the search string occurs
  (\<open>None\<close> for -1).  \<open>includes_string\<close> is \<open>String.prototype.includes\<close>.
\<close>

definition char_toLowerCase :: "char \<Rightarrow> char" where
  "char_toLowerCase c =
     (case map_of (zip ''ABCDEFGHIJKLMNOPQRSTUVWXYZ'' ''abcdefghijklmnopqrstuvwxyz'') c of
        None \<Rightarrow> c
      | Some l \<Rightarrow> l)"

definition toLowerCase :: "string \<Rightarrow> string" where
  "toLowerCase s = map char_toLowerCase s"

definition indexOf :: "string \<Rightarrow> string \<Rightarrow> nat \<Rightarrow> nat option" where
  "indexOf s searchString position =
     find (\<lambda>i. take (length searchString) (drop i s) = searchString)
       [min position (length s) ..< Suc (length s) - length searchString]"

definition includes_string :: "string \<Rightarrow> string \<Rightarrow> bool" where
  "includes_string s searchString = (indexOf s searchString 0 \<noteq> None)"

subsection \<open>Filename search\<close>

text \<open>
  \<open>MemFSFileSearchProvider.provideFileSearchResults\<close>.  The state is the \<open>results\<close> array.
  \<open>file_searchInFolder\<close> is its local function \<open>searchInFolder\<close>, and
  \<open>file_searchEntries\<close> the loop over the entries of the folder; an error thrown in the
  loop is caught by the \<open>try\<close> of the folder, which ends the loop.
\<close>

record fstate = poll_state +
  results :: "Uri list"

function file_searchInFolder ::
  "store \<Rightarrow> string \<Rightarrow> string \<Rightarrow> SearchOptions \<Rightarrow> CancellationToken \<Rightarrow> path \<Rightarrow> fstate \<Rightarrow> fstate"
and file_searchEntries ::
  "store \<Rightarrow> string \<Rightarrow> string \<Rightarrow> SearchOptions \<Rightarrow> CancellationToken \<Rightarrow> path \<Rightarrow> string list
     \<Rightarrow> fstate \<Rightarrow> fstate"
where
  "file_searchInFolder s this_scheme patternLower options token folderPath st =
     (if isCancellationRequested token st then polled st
      else case fs_readdir s folderPath of
             Inl e \<Rightarrow> polled st
           | Inr entries \<Rightarrow>
               file_searchEntries s this_scheme patternLower options token folderPath entries
                 (polled st))"
| "file_searchEntries s this_scheme patternLower options token folderPath [] st = st"
| "file_searchEntries s this_scheme patternLower options token folderPath (entry # entries) st =
     (if isCancellationRequested token st then polled st
      else case fs_stat s (path_join folderPath entry) of
             Inl e \<Rightarrow> polled st
           | Inr stats \<Rightarrow>
               if isDirectory stats then
                 (if limit_reached options (length (results (polled st))) then polled st
                  else file_searchEntries s this_scheme patternLower options token folderPath entries
                         (file_searchInFolder s this_scheme patternLower options token
                            (path_join folderPath entry) (polled st)))
               else if isFile stats then
                 (if includes_string (toLowerCase entry) patternLower then
                    (let st2 = (polled st)\<lparr>results := results (polled st)
                                  @ [Uri_parse this_scheme (path_join folderPath entry)]\<rparr>
                     in if limit_reached options (length (results st2)) then st2
                        else file_searchEntries s this_scheme patternLower options token
                               folderPath entries st2)
                  else file_searchEntries s this_scheme patternLower options token folderPath
                         entries (polled st))
               else file_searchEntries s this_scheme patternLower options token folderPath
                      entries (polled st))"
  by pat_completeness auto
termination
  by (relation "measures
         [\<lambda>x. case x of
            Inl (s, _, _, _, _, folderPath, _) \<Rightarrow> 2 * tsize s folderPath + 1
          | Inr (s, _, _, _, _, folderPath, _, _) \<Rightarrow> 2 * tsize s folderPath,
          \<lambda>x. case x of
            Inl _ \<Rightarrow> 0
          | Inr (_, _, _, _, _, _, entries, _) \<Rightarrow> length entries]")
     (auto dest: tsize_child)

fun file_searchIncludes ::
  "store \<Rightarrow> string \<Rightarrow> string \<Rightarrow> SearchOptions \<Rightarrow> CancellationToken \<Rightarrow> Uri list \<Rightarrow> fstate \<Rightarrow> fstate"
where
  "file_searchIncludes s this_scheme patternLower options token [] st = st"
| "file_searchIncludes s this_scheme patternLower options token (folder # folders) st =
     (if isCancellationRequested token st then polled st
      else file_searchIncludes s this_scheme patternLower options token folders
             (file_searchInFolder s this_scheme patternLower options token (path folder)
                (polled st)))"

definition provideFileSearchResults ::
  "store \<Rightarrow> string \<Rightarrow> string \<Rightarrow> SearchOptions \<Rightarrow> CancellationToken \<Rightarrow> Uri list" where
  "provideFileSearchResults s this_scheme query_pattern options token =
     (let patternLower = toLowerCase query_pattern;
          st1 = file_searchIncludes s this_scheme patternLower options token
                  (case includePaths options of None \<Rightarrow> [] | Some folders \<Rightarrow> folders)
                  \<lparr>polls = 0, results = []\<rparr>;
          st2 = (if includePaths options = None \<or> includePaths options = Some []
                 then file_searchInFolder s this_scheme patternLower options token [] st1
                 else st1)
      in results st2)"

subsection \<open>Content search\<close>

record Range =
  startLine :: nat
  startCharacter :: nat
  endLine :: nat
  endCharacter :: nat

definition Range_new :: "nat \<Rightarrow> nat \<Rightarrow> nat \<Rightarrow> nat \<Rightarrow> Range" where
  "Range_new sl sc el ec = \<lparr>startLine = sl, startCharacter = sc, endLine = el, endCharacter = ec\<rparr>"

record TextSearchResult =
  res_uri :: Uri
  res_ranges :: Range
  preview_text :: string
  preview_matches :: Range

record TextSearchQuery =
  pattern :: string
  isRegExp :: bool
  isCaseSensitive :: bool

record tstate = poll_state +
  limitHit :: bool
  resultCount :: nat
  progress :: "TextSearchResult list"

text \<open>
  A compiled regular expression is a parameter of the model: given a line and an index,
  it returns the start and the length of the first match at or after the index, if any.
  \<open>exec\<close> is \<open>RegExp.prototype.exec\<close> of a global expression, with \<open>lastIndex\<close> made
  explicit: it fails when \<open>lastIndex\<close> is beyond the line, and sets \<open>lastIndex\<close> to the end
  of the match, or to 0 on failure.
\<close>

type_synonym RegExp = "string \<Rightarrow> nat \<Rightarrow> (nat \<times> nat) option"

definition exec :: "RegExp \<Rightarrow> string \<Rightarrow> nat \<Rightarrow> (nat \<times> nat) option \<times> nat" where
  "exec searchPattern line lastIndex =
     (if length line < lastIndex then (None, 0)
      else case searchPattern line lastIndex of
             None \<Rightarrow> (None, 0)
           | Some (index, len) \<Rightarrow> (Some (index, len), index + len))"

text \<open>\<open>progress.report(...)\<close> of a match on a line, followed by \<open>resultCount++\<close>.\<close>

definition report :: "Uri \<Rightarrow> nat \<Rightarrow> string \<Rightarrow> nat \<Rightarrow> nat \<Rightarrow> tstate \<Rightarrow> tstate" where
  "report fileUri lineNumber line index len st =
     st\<lparr>progress := progress st @
          [\<lparr>res_uri = fileUri,
            res_ranges = Range_new lineNumber index lineNumber (index + len),
            preview_text = line,
            preview_matches = Range_new 0 index 0 (index + len)\<rparr>],
        resultCount := Suc (resultCount st)\<rparr>"

text \<open>
  The two \<open>while\<close> loops over the matches on one line.  Neither need end, so they are
  partial functions: \<open>None\<close> says that the loop runs forever.  The result says whether
  the loop left \<open>searchInFile\<close> by its \<open>return\<close>, and gives the state.
\<close>

partial_function (option) regexLoop ::
  "SearchOptions \<Rightarrow> CancellationToken \<Rightarrow> RegExp \<Rightarrow> Uri \<Rightarrow> nat \<Rightarrow> string \<Rightarrow> nat \<Rightarrow> tstate
     \<Rightarrow> (bool \<times> tstate) option"
where
  "regexLoop options token searchPattern fileUri lineNumber line lastIndex st =
     (case fst (exec searchPattern line lastIndex) of
        None \<Rightarrow> Some (False, st)
      | Some m \<Rightarrow>
          if limitHit st then Some (False, st)
          else if isCancellationRequested token st then Some (False, polled st)
          else if limit_reached options
                    (resultCount (report fileUri lineNumber line (fst m) (snd m) (polled st)))
          then Some (True, (report fileUri lineNumber line (fst m) (snd m) (polled st))
                             \<lparr>limitHit := True\<rparr>)
          else regexLoop options token searchPattern fileUri lineNumber line
                 (snd (exec searchPattern line lastIndex))
                 (report fileUri lineNumber line (fst m) (snd m) (polled st)))"

partial_function (option) plainLoop ::
  "SearchOptions \<Rightarrow> CancellationToken \<Rightarrow> Uri \<Rightarrow> nat \<Rightarrow> string \<Rightarrow> string \<Rightarrow> string \<Rightarrow> nat
     \<Rightarrow> tstate \<Rightarrow> (bool \<times> tstate) option"
where
  "plainLoop options token fileUri lineNumber line searchLine searchString startIndex st =
     (case indexOf searchLine searchString startIndex of
        None \<Rightarrow> Some (False, st)
      | Some matchIndex \<Rightarrow>
          if limitHit st then Some (False, st)
          else if isCancellationRequested token st then Some (False, polled st)
          else if limit_reached options
                    (resultCount (report fileUri lineNumber line matchIndex (length searchString)
                                    (polled st)))
          then Some (True, (report fileUri lineNumber line matchIndex (length searchString)
                              (polled st))\<lparr>limitHit := True\<rparr>)
          else plainLoop options token fileUri lineNumber line searchLine searchString
                 (matchIndex + 1)
                 (report fileUri lineNumber line matchIndex (length searchString) (polled st)))"

text \<open>
  \<open>split_lines\<close> is \<open>text.split\<close> at every line feed, with the carriage return
  before it when there is one; \<open>decode\<close> is \<open>textDecoder.decode\<close> on contents whose bytes
  are the characters.
\<close>

definition LF :: char where
  "LF = CHR 0x0A"

definition CR :: char where
  "CR = CHR 0x0D"

fun split_lines :: "string \<Rightarrow> string list" where
  "split_lines [] = [[]]"
| "split_lines [c] = (if c = LF then [[], []] else [[c]])"
| "split_lines (c # d # cs) =
     (if c = LF then [] # split_lines (d # cs)
      else if c = CR \<and> d = LF then [] # split_lines cs
      else case split_lines (d # cs) of
             [] \<Rightarrow> [[c]]
           | l # ls \<Rightarrow> (c # l) # ls)"

definition decode :: "bytes \<Rightarrow> string" where
  "decode content = map (\<lambda>b. char_of (unat b)) content"

text \<open>
  \<open>searchInFile\<close> with its loop over the lines, \<open>searchLines\<close>; then \<open>searchInFolder\<close> of
  the content search and its loop over the entries, and the loop over the folders to
  search.
\<close>

fun searchLines ::
  "TextSearchQuery \<Rightarrow> SearchOptions \<Rightarrow> CancellationToken \<Rightarrow> RegExp option \<Rightarrow> string \<Rightarrow> Uri
     \<Rightarrow> string list \<Rightarrow> nat \<Rightarrow> tstate \<Rightarrow> tstate option"
where
  "searchLines query options token searchPattern searchString fileUri [] lineNumber st = Some st"
| "searchLines query options token searchPattern searchString fileUri (line # rest) lineNumber st =
     (if isCancellationRequested token st \<or> limitHit st then Some (polled st)
      else case (case searchPattern of
                   Some re \<Rightarrow> regexLoop options token re fileUri lineNumber line 0 (polled st)
                 | None \<Rightarrow>
                     plainLoop options token fileUri lineNumber line
                       (if isCaseSensitive query then line else toLowerCase line)
                       searchString 0 (polled st)) of
             None \<Rightarrow> None
           | Some (returned, st') \<Rightarrow>
               if returned then Some st'
               else searchLines query options token searchPattern searchString fileUri rest
                      (Suc lineNumber) st')"

definition searchInFile ::
  "store \<Rightarrow> string \<Rightarrow> TextSearchQuery \<Rightarrow> SearchOptions \<Rightarrow> CancellationToken \<Rightarrow> RegExp option
     \<Rightarrow> string \<Rightarrow> path \<Rightarrow> tstate \<Rightarrow> tstate option" where
  "searchInFile s this_scheme query options token searchPattern searchString filePath st =
     (if isCancellationRequested token st \<or> limitHit st then Some (polled st)
      else case fs_readFile s filePath of
             Inl e \<Rightarrow> Some (polled st)
           | Inr content \<Rightarrow>
               searchLines query options token searchPattern searchString
                 (Uri_parse this_scheme filePath) (split_lines (decode content)) 0 (polled st))"

function text_searchInFolder ::
  "store \<Rightarrow> string \<Rightarrow> TextSearchQuery \<Rightarrow> SearchOptions \<Rightarrow> CancellationToken \<Rightarrow> RegExp option
     \<Rightarrow> string \<Rightarrow> path \<Rightarrow> tstate \<Rightarrow> tstate option"
and text_searchEntries ::
  "store \<Rightarrow> string \<Rightarrow> TextSearchQuery \<Rightarrow> SearchOptions \<Rightarrow> CancellationToken \<Rightarrow> RegExp option
     \<Rightarrow> string \<Rightarrow> path \<Rightarrow> string list \<Rightarrow> tstate \<Rightarrow> tstate option"
where
  "text_searchInFolder s this_scheme query options token searchPattern searchString folderPath st =
     (if isCancellationRequested token st \<or> limitHit st then Some (polled st)
      else case fs_readdir s folderPath of
             Inl e \<Rightarrow> Some (polled st)
           | Inr entries \<Rightarrow>
               text_searchEntries s this_scheme query options token searchPattern searchString
                 folderPath entries (polled st))"
| "text_searchEntries s this_scheme query options token searchPattern searchString folderPath
     [] st = Some st"
| "text_searchEntries s this_scheme query options token searchPattern searchString folderPath
     (entry # entries) st =
     (if isCancellationRequested token st \<or> limitHit st then Some (polled st)
      else case fs_stat s (path_join folderPath entry) of
             Inl e \<Rightarrow> Some (polled st)
           | Inr stats \<Rightarrow>
               if isDirectory stats then
                 (case text_searchInFolder s this_scheme query options token searchPattern
                         searchString (path_join folderPath entry) (polled st) of
                    None \<Rightarrow> None
                  | Some st' \<Rightarrow>
                      text_searchEntries s this_scheme query options token searchPattern
                        searchString folderPath entries st')
               else if isFile stats then
                 (case searchInFile s this_scheme query options token searchPattern searchString
                         (path_join folderPath entry) (polled st) of
                    None \<Rightarrow> None
                  | Some st' \<Rightarrow>
                      text_searchEntries s this_scheme query options token searchPattern
                        searchString folderPath entries st')
               else text_searchEntries s this_scheme query options token searchPattern
                      searchString folderPath entries (polled st))"
  by pat_completeness auto
termination
  by (relation "measures
         [\<lambda>x. case x of
            Inl (s, _, _, _, _, _, _, folderPath, _) \<Rightarrow> 2 * tsize s folderPath + 1
          | Inr (s, _, _, _, _, _, _, folderPath, _, _) \<Rightarrow> 2 * tsize s folderPath,
          \<lambda>x. case x of
            Inl _ \<Rightarrow> 0
          | Inr (_, _, _, _, _, _, _, _, entries, _) \<Rightarrow> length entries]")
     (auto dest: tsize_child)

fun text_searchIncludes ::
  "store \<Rightarrow> string \<Rightarrow> TextSearchQuery \<Rightarrow> SearchOptions \<Rightarrow> CancellationToken \<Rightarrow> RegExp option
     \<Rightarrow> string \<Rightarrow> Uri list \<Rightarrow> tstate \<Rightarrow> tstate option"
where
  "text_searchIncludes s this_scheme query options token searchPattern searchString [] st = Some st"
| "text_searchIncludes s this_scheme query options token searchPattern searchString
     (folder # folders) st =
     (if isCancellationRequested token st \<or> limitHit st then Some (polled st)
      else case text_searchInFolder s this_scheme query options token searchPattern searchString
                  (path folder) (polled st) of
             None \<Rightarrow> None
           | Some st' \<Rightarrow>
               text_searchIncludes s this_scheme query options token searchPattern searchString
                 folders st')"

text \<open>
  \<open>MemFSTextSearchProvider.provideTextSearchResults\<close>.  \<open>RegExp_new\<close> is the constructor
  \<open>new RegExp(pattern, flags)\<close>, which throws a \<open>SyntaxError\<close> on a pattern it does not
  accept (\<open>None\<close>).  The result is the thrown error, or the returned \<open>limitHit\<close> together
  with the final state, which holds the progress reports; \<open>None\<close> when the search does
  not return.
\<close>

datatype SyntaxError = SyntaxError

definition provideTextSearchResults ::
  "(string \<Rightarrow> string \<Rightarrow> RegExp option) \<Rightarrow> store \<Rightarrow> string \<Rightarrow> TextSearchQuery \<Rightarrow> SearchOptions
     \<Rightarrow> CancellationToken \<Rightarrow> (SyntaxError + bool \<times> tstate) option" where
  "provideTextSearchResults RegExp_new s this_scheme query options token =
     (case (if isRegExp query
            then (case RegExp_new (pattern query) (if isCaseSensitive query then ''g'' else ''gi'') of
                    None \<Rightarrow> Inl SyntaxError
                  | Some re \<Rightarrow> Inr (Some re))
            else Inr None) of
        Inl err \<Rightarrow> Some (Inl err)
      | Inr searchPattern \<Rightarrow>
          (let searchString = (if isCaseSensitive query then pattern query
                               else toLowerCase (pattern query))
           in case text_searchIncludes s this_scheme query options token searchPattern searchString
                     (case includePaths options of None \<Rightarrow> [] | Some folders \<Rightarrow> folders)
                     \<lparr>polls = 0, limitHit = False, resultCount = 0, progress = []\<rparr> of
                None \<Rightarrow> None
              | Some st1 \<Rightarrow>
                  (case (if includePaths options = None \<or> includePaths options = Some []
                         then text_searchInFolder s this_scheme query options token searchPattern
                                searchString [] st1
                         else Some st1) of
                     None \<Rightarrow> None
                   | Some st2 \<Rightarrow> Some (Inr (limitHit st2, st2)))))"

section \<open>Notions used in the statements\<close>

subsection \<open>The steps of a content search\<close>

text \<open>
  Every change of the state of a content search is one of three steps: a poll of the
  token; the report of a match in a regular file, made while the limit flag is not set,
  after which the count has not reached the cap; or such a report after which the count
  has reached the cap, together with the setting of the flag.  Each function of the
  search takes its state to its result by a sequence of these steps.
\<close>

inductive search_step :: "store \<Rightarrow> SearchOptions \<Rightarrow> tstate \<Rightarrow> tstate \<Rightarrow> bool"
  for s :: store and options :: SearchOptions
where
  step_poll: "search_step s options st (polled st)"
| step_report:
    "\<not> limitHit st \<Longrightarrow> fs_stat s (path u) = Inr S_IFREG
     \<Longrightarrow> \<not> limit_reached options (Suc (resultCount st))
     \<Longrightarrow> search_step s options st (report u ln line i l st)"
| step_hit:
    "\<not> limitHit st \<Longrightarrow> fs_stat s (path u) = Inr S_IFREG
     \<Longrightarrow> limit_reached options (Suc (resultCount st))
     \<Longrightarrow> search_step s options st ((report u ln line i l st)\<lparr>limitHit := True\<rparr>)"

abbreviation search_steps :: "store \<Rightarrow> SearchOptions \<Rightarrow> tstate \<Rightarrow> tstate \<Rightarrow> bool" where
  "search_steps s options \<equiv> (search_step s options)\<^sup>*\<^sup>*"

text \<open>
  The state in which a content search starts, and what holds of every state of a search
  with the cap \<open>m\<close>: the count is the number of reports, it is \<open>m\<close> when the flag is set
  and below \<open>m\<close> when it is not.  For the filename search: every result has the scheme
  of the provider and the path of a regular file.
\<close>

definition initial_tstate :: tstate where
  "initial_tstate = \<lparr>polls = 0, limitHit = False, resultCount = 0, progress = []\<rparr>"

definition capped :: "nat \<Rightarrow> tstate \<Rightarrow> bool" where
  "capped m st \<longleftrightarrow>
     resultCount st = length (progress st) \<and>
     (if limitHit st then length (progress st) = m else length (progress st) < m)"

definition regular_results :: "store \<Rightarrow> string \<Rightarrow> fstate \<Rightarrow> bool" where
  "regular_results s this_scheme st \<longleftrightarrow>
     list_all (\<lambda>u. scheme u = this_scheme \<and> fs_stat s (path u) = Inr S_IFREG) (results st)"

subsection \<open>Matches on a line\<close>

text \<open>
  \<open>occurs_at s x i\<close>: the string \<open>x\<close> occurs in \<open>s\<close> at index \<open>i\<close>.  \<open>match_at\<close> is the
  progress report of a match on a line, by its start and its length, and
  \<open>start_columns\<close> gives the start columns of a list of reports.
  \<open>nonempty_matches re line\<close>: from every index of the line, a match that the expression
  finds starts at or after the index and is not empty.
\<close>

definition occurs_at :: "string \<Rightarrow> string \<Rightarrow> nat \<Rightarrow> bool" where
  "occurs_at s searchString i \<longleftrightarrow> take (length searchString) (drop i s) = searchString"

definition match_at :: "Uri \<Rightarrow> nat \<Rightarrow> string \<Rightarrow> nat \<Rightarrow> nat \<Rightarrow> TextSearchResult" where
  "match_at fileUri lineNumber line index len =
     \<lparr>res_uri = fileUri, res_ranges = Range_new lineNumber index lineNumber (index + len),
      preview_text = line, preview_matches = Range_new 0 index 0 (index + len)\<rparr>"

definition start_columns :: "TextSearchResult list \<Rightarrow> nat list" where
  "start_columns rs = map (\<lambda>r. startCharacter (res_ranges r)) rs"

definition nonempty_matches :: "RegExp \<Rightarrow> string \<Rightarrow> bool" where
  "nonempty_matches re line \<longleftrightarrow>
     (\<forall>i \<le> length line.
        case re line i of None \<Rightarrow> True | Some (index, len) \<Rightarrow> i \<le> index \<and> 0 < len)"

subsection \<open>Paths that do not meet\<close>

text \<open>
  Two paths are unrelated when neither is a prefix of the other.  \<open>same_outside p s s'\<close>:
  the stores agree at every path unrelated to \<open>p\<close>.  \<open>copied s s' sp dp\<close>: every file
  that \<open>s\<close> holds at or below \<open>sp\<close> is held by \<open>s'\<close>, with the same bytes, at the same
  place below \<open>dp\<close>.
\<close>

definition unrelated :: "path \<Rightarrow> path \<Rightarrow> bool" where
  "unrelated p q \<longleftrightarrow> \<not> prefix p q \<and> \<not> prefix q p"

definition same_outside :: "path \<Rightarrow> store \<Rightarrow> store \<Rightarrow> bool" where
  "same_outside p s s' \<longleftrightarrow> (\<forall>q. unrelated p q \<longrightarrow> resolve s' q = resolve s q)"

definition copied :: "store \<Rightarrow> store \<Rightarrow> path \<Rightarrow> path \<Rightarrow> bool" where
  "copied s s' sp dp \<longleftrightarrow>
     (\<forall>rel content. resolve s (sp @ rel) = Inr (File content)
        \<longrightarrow> resolve s' (dp @ rel) = Inr (File content))"

subsection \<open>Inputs of the examples\<close>

text \<open>
  The scheme the extension registers, a token that is never cancelled, the bytes of a
  text, and three regular expression engines: a constructor that accepts no pattern, an
  expression that matches the empty string at every index, and one that matches a given
  string.
\<close>

definition memfs :: string where
  "memfs = ''memfs''"

definition never :: CancellationToken where
  "never = (\<lambda>_. False)"

definition encode :: "string \<Rightarrow> bytes" where
  "encode str = map (\<lambda>c. of_nat (of_char c)) str"

definition no_RegExp :: "string \<Rightarrow> string \<Rightarrow> RegExp option" where
  "no_RegExp p flags = None"

definition empty_match :: RegExp where
  "empty_match line i = Some (i, 0)"

definition literal_re :: "string \<Rightarrow> RegExp" where
  "literal_re searchString line i =
     (case indexOf line searchString i of
        None \<Rightarrow> None
      | Some index \<Rightarrow> Some (index, length searchString))"

text \<open>Stores, identifiers and a query.\<close>

definition example_store :: store where
  "example_store =
     Directory [(''a.txt'', File [1, 2]), (''b.txt'', File [3]), (''d'', Directory [])]"

definition a_txt :: Uri where
  "a_txt = \<lparr>scheme = ''memfs'', path = [''a.txt'']\<rparr>"

definition b_txt :: Uri where
  "b_txt = \<lparr>scheme = ''memfs'', path = [''b.txt'']\<rparr>"

definition missing_txt :: Uri where
  "missing_txt = \<lparr>scheme = ''memfs'', path = [''d'', ''missing.txt'']\<rparr>"

definition orphan_txt :: Uri where
  "orphan_txt = \<lparr>scheme = ''memfs'', path = [''nowhere'', ''f.txt'']\<rparr>"

definition nested_store :: store where
  "nested_store =
     Directory [(''d'', Directory [(''a1.ts'', File [])]),
                (''a2.ts'', File []), (''a3.ts'', File [])]"

definition special_store :: store where
  "special_store =
     Directory [(''a.link'', SymbolicLink), (''a.sock'', Other),
                (''a.txt'', File (encode ''Foo bar foo''))]"

definition foo_query :: TextSearchQuery where
  "foo_query = \<lparr>pattern = ''foo'', isRegExp = False, isCaseSensitive = False\<rparr>"

definition foo_match :: "nat \<Rightarrow> nat \<Rightarrow> TextSearchResult" where
  "foo_match i j =
     \<lparr>res_uri = \<lparr>scheme = ''memfs'', path = [''a.txt'']\<rparr>, res_ranges = Range_new 0 i 0 j,
      preview_text = ''Foo bar foo'', preview_matches = Range_new 0 i 0 j\<rparr>"

definition copy_store :: store where
  "copy_store =
     Directory [(''src'', Directory [(''f'', File [1]), (''sub'', Directory [(''g'', File [2])])]),
                (''dst'', Directory [(''f'', File [9]), (''sub'', Directory [(''g'', File [8])])])]"

definition copied_store :: store where
  "copied_store =
     Directory [(''src'', Directory [(''f'', File [1]), (''sub'', Directory [(''g'', File [2])])]),
                (''dst'', Directory [(''f'', File [1]), (''sub'', Directory [(''g'', File [2])])])]"

definition src_dir :: Uri where
  "src_dir = \<lparr>scheme = ''memfs'', path = [''src'']\<rparr>"

definition dst_dir :: Uri where
  "dst_dir = \<lparr>scheme = ''memfs'', path = [''dst'']\<rparr>"

section \<open>Properties of the store\<close>

lemma resolve_parent_dir:
  "resolve t p = Inr n \<Longrightarrow> p \<noteq> [] \<Longrightarrow> \<exists>es. resolve t (butlast p) = Inr (Directory es)"
proof (induction t p rule: resolve.induct)
  case (2 es x xs)
  then show ?case by (cases xs) (auto split: option.splits)
qed auto

lemma resolve_put_same:
  "resolve t (butlast p) = Inr (Directory es) \<Longrightarrow> p \<noteq> [] \<Longrightarrow> resolve (put t p n) p = Inr n"
proof (induction t p n arbitrary: es rule: put.induct)
  case (3 es' x y ys n)
  then show ?case by (auto split: option.splits simp: update_conv')
qed (auto simp: update_conv' split: if_splits)

lemma resolve_del_below:
  "p \<noteq> [] \<Longrightarrow> resolve t p = Inr n \<Longrightarrow> \<exists>e. resolve (del t p) (p @ r) = Inl e"
proof (induction t p arbitrary: n rule: del.induct)
  case (3 es x y ys)
  then show ?case by (auto split: option.splits simp: update_conv' delete_conv')
qed (auto simp: update_conv' delete_conv')

lemma resolve_put_other:
  "\<not> prefix p q \<Longrightarrow> \<not> prefix q p \<Longrightarrow> resolve (put t p n) q = resolve t q"
proof (induction t p n arbitrary: q rule: put.induct)
  case (2 es x n)
  then show ?case by (cases q) (auto simp: update_conv')
next
  case (3 es x y ys n)
  then show ?case by (cases q) (auto split: option.splits simp: update_conv')
qed auto

lemma resolve_del_other:
  "\<not> prefix p q \<Longrightarrow> \<not> prefix q p \<Longrightarrow> resolve (del t p) q = resolve t q"
proof (induction t p arbitrary: q rule: del.induct)
  case (2 es x)
  then show ?case by (cases q) (auto simp: delete_conv')
next
  case (3 es x y ys)
  then show ?case by (cases q) (auto split: option.splits simp: update_conv' delete_conv')
qed auto

lemma resolve_del_above:
  "resolve t q = Inr (Directory es) \<Longrightarrow> \<not> prefix p q \<Longrightarrow>
   \<exists>es'. resolve (del t p) q = Inr (Directory es')"
proof (induction t p arbitrary: q es rule: del.induct)
  case (2 es0 x)
  then show ?case by (cases q) (auto simp: delete_conv' split: option.splits if_splits)
next
  case (3 es0 x y ys)
  then show ?case by (cases q) (auto simp: update_conv' split: option.splits if_splits)
qed auto

lemma resolve_error: "resolve t p = Inl e \<Longrightarrow> e = ENOENT \<or> e = ENOTDIR"
  by (induction t p rule: resolve.induct) (auto split: option.splits)

lemma lookup_Some: "lookup t p = Some n \<longleftrightarrow> resolve t p = Inr n"
  by (auto simp: lookup_def split: sum.splits)

lemma lookup_None: "lookup t p = None \<longleftrightarrow> (\<exists>e. resolve t p = Inl e)"
  by (auto simp: lookup_def split: sum.splits)

lemma fs_writeFile_result:
  assumes "fs_writeFile s p content flg = Inr s'"
  shows "s' = put s p (File content) \<and> resolve s' p = Inr (File content)"
proof (cases "p = []")
  case True
  with assms show ?thesis
    by (auto simp: fs_writeFile_def lookup_def dirname_def split: if_splits node.splits sum.splits)
next
  case False
  from assms obtain es where "resolve s (butlast p) = Inr (Directory es)"
    using resolve_parent_dir[OF _ False, of s]
    by (auto simp: fs_writeFile_def lookup_def dirname_def split: if_splits node.splits sum.splits)
  from resolve_put_same[OF this False] assms show ?thesis
    by (auto simp: fs_writeFile_def lookup_def dirname_def split: if_splits node.splits sum.splits)
qed





lemma prefix_butlast: "prefix a (butlast b) \<Longrightarrow> prefix a b"
  by (metis prefix_order.trans prefixeq_butlast)

lemma fs_rename_fresh:
  assumes ren: "fs_rename s1 a b = Inr s2" and nb: "lookup s1 b = None"
  shows "\<exists>n. resolve s1 a = Inr n \<and> resolve s2 b = Inr n \<and> (\<exists>e. resolve s2 a = Inl e)
           \<and> \<not> prefix a b \<and> \<not> prefix b a"
proof -
  from ren obtain n where n: "resolve s1 a = Inr n"
    by (auto simp: fs_rename_def split: sum.splits)
  from ren n nb have a0: "a \<noteq> []" and ab: "a \<noteq> b" and pab: "\<not> prefix a b"
    by (auto simp: fs_rename_def lookup_def split: sum.splits if_splits)
  from ren n nb a0 ab pab obtain es where
    par: "resolve s1 (butlast b) = Inr (Directory es)" and s2: "s2 = put (del s1 a) b n"
    by (auto simp: fs_rename_def dirname_def split: sum.splits if_splits node.splits)
  have b0: "b \<noteq> []" using nb by (auto simp: lookup_def)
  have pba: "\<not> prefix b a"
  proof
    assume "prefix b a"
    then obtain r where "a = b @ r" by (auto simp: prefix_def)
    with n nb show False
      by (auto simp: lookup_def resolve_append split: sum.splits)
  qed
  have "\<not> prefix a (butlast b)" using pab prefix_butlast by blast
  from resolve_del_above[OF par this] obtain es' where
    "resolve (del s1 a) (butlast b) = Inr (Directory es')" by blast
  from resolve_put_same[OF this b0] have rb: "resolve s2 b = Inr n" by (simp add: s2)
  have "resolve s2 a = resolve (del s1 a) a"
    unfolding s2 using pab pba by (simp add: resolve_put_other)
  moreover from resolve_del_below[OF a0 n, of "[]"] obtain e where "resolve (del s1 a) a = Inl e"
    by auto
  ultimately show ?thesis using n rb pab pba by auto
qed

lemma fs_rm_result:
  assumes "fs_rm s p True True = Inr s1" and "fs_exists s p"
  shows "s1 = del s p \<and> p \<noteq> [] \<and> lookup s1 p = None"
proof -
  from assms obtain n where n: "resolve s p = Inr n"
    by (auto simp: fs_exists_def lookup_def split: sum.splits)
  with assms have p: "p \<noteq> []" and s1: "s1 = del s p"
    by (auto simp: fs_rm_def split: if_splits node.splits)
  from resolve_del_below[OF p n, of "[]"] show ?thesis using p s1
    by (auto simp: lookup_def)
qed

section \<open>Properties of the file operations\<close>

lemmas example_defs =
  memfs_def example_store_def a_txt_def b_txt_def missing_txt_def orphan_txt_def

lemmas fs_defs =
  asFsPath_def fs_exists_def fs_stat_def fs_readFile_def fs_writeFile_def fs_rm_def
  fs_rename_def fs_readdir_def lookup_def dirname_def

text \<open>
  C1.  Round trip: when \<open>writeFile\<close> with \<open>create\<close> and \<open>overwrite\<close> set succeeds (it raises
  nothing), reading the same identifier from the store it leaves returns exactly the
  bytes written.
\<close>

theorem write_then_read:
  assumes "writeFile this_scheme s uri content \<lparr>create = True, overwrite = True\<rparr> = (None, s')"
  shows "readFile this_scheme s' uri = Inr content"
proof -
  from assms have sch: "asFsPath this_scheme uri = Inr (path uri)"
    by (auto simp: writeFile_def asFsPath_def split: if_splits)
  with assms have "fs_writeFile s (path uri) content W = Inr s'"
    by (auto simp: writeFile_def split: sum.splits if_splits)
  then have "resolve s' (path uri) = Inr (File content)"
    using fs_writeFile_result by blast
  with sch show ?thesis
    by (simp add: readFile_def fs_readFile_def)
qed

theorem write_then_read_witness:
  "writeFile memfs example_store missing_txt [7, 8, 9] \<lparr>create = True, overwrite = True\<rparr>
     = (None, Directory [(''a.txt'', File [1, 2]), (''b.txt'', File [3]),
                         (''d'', Directory [(''missing.txt'', File [7, 8, 9])])])
   \<and> readFile memfs
         (Directory [(''a.txt'', File [1, 2]), (''b.txt'', File [3]),
                     (''d'', Directory [(''missing.txt'', File [7, 8, 9])])])
         missing_txt = Inr [7, 8, 9]"
proof -
  have w: "writeFile memfs example_store missing_txt [7, 8, 9] \<lparr>create = True, overwrite = True\<rparr>
     = (None, Directory [(''a.txt'', File [1, 2]), (''b.txt'', File [3]),
                         (''d'', Directory [(''missing.txt'', File [7, 8, 9])])])"
    by (simp add: writeFile_def example_defs fs_defs)
  from write_then_read[OF w] w show ?thesis by simp
qed




text \<open>
  C9.  \<open>delete\<close> of an identifier of the provider's scheme whose path does not exist
  raises nothing and leaves the store as it is, whatever the \<open>recursive\<close> flag.
\<close>

theorem delete_missing:
  assumes "scheme uri = this_scheme" and "\<not> fs_exists s (path uri)"
  shows "delete this_scheme s uri recursive = (None, s)"
  using assms
  by (auto simp: delete_def asFsPath_def fs_rm_def fs_exists_def lookup_def split: sum.splits)

theorem delete_missing_witness:
  "scheme missing_txt = memfs \<and> \<not> fs_exists example_store (path missing_txt)
   \<and> delete memfs example_store missing_txt False = (None, example_store)
   \<and> delete memfs example_store missing_txt True = (None, example_store)"
proof -
  have sch: "scheme missing_txt = memfs"
    by (simp add: example_defs)
  have nex: "\<not> fs_exists example_store (path missing_txt)"
    by (simp add: example_defs fs_defs)
  from delete_missing[OF sch nex, of False] delete_missing[OF sch nex, of True] sch nex
  show ?thesis by simp
qed

text \<open>
  C5.  When \<open>rename\<close> with \<open>overwrite\<close> set succeeds, the old path existed, what is at
  the new path afterwards is what was at the old path before (for a file: reading the
  new identifier returns the bytes that reading the old one returned), the old path no
  longer exists (\<open>stat\<close> raises \<open>FileNotFound\<close>), and when the new path existed before,
  the store went through two steps: the recursive forced removal of the new path, then
  the rename.
\<close>

theorem rename_overwrite:
  assumes "rename this_scheme s oldUri newUri True = (None, s')"
  shows "fs_exists s (path oldUri)
       \<and> lookup s' (path newUri) = lookup s (path oldUri)
       \<and> \<not> fs_exists s' (path oldUri)
       \<and> (\<forall>content. readFile this_scheme s oldUri = Inr content
             \<longrightarrow> readFile this_scheme s' newUri = Inr content)
       \<and> stat this_scheme s' oldUri = Inl (FileNotFound oldUri)
       \<and> (fs_exists s (path newUri) \<longrightarrow>
            (\<exists>s1. fs_rm s (path newUri) True True = Inr s1
                 \<and> fs_rename s1 (path oldUri) (path newUri) = Inr s'))"
proof -
  let ?a = "path oldUri" and ?b = "path newUri"
  from assms have scha: "asFsPath this_scheme oldUri = Inr ?a"
    and schb: "asFsPath this_scheme newUri = Inr ?b"
    by (auto simp: rename_def asFsPath_def split: if_splits)
  from assms obtain s1 where
    rm: "(if fs_exists s ?b then fs_rm s ?b True True else Inr s) = Inr s1"
    and ren: "fs_rename s1 ?a ?b = Inr s'"
    by (auto simp: rename_def scha schb split: sum.splits)
  have nb: "lookup s1 ?b = None" and s1: "s1 = (if fs_exists s ?b then del s ?b else s)"
    using rm fs_rm_result[of s ?b s1] by (auto simp: fs_exists_def split: if_splits)
  from fs_rename_fresh[OF ren nb] obtain n e where
    n: "resolve s1 ?a = Inr n" and rb: "resolve s' ?b = Inr n" and ra: "resolve s' ?a = Inl e"
    and pab: "\<not> prefix ?a ?b" and pba: "\<not> prefix ?b ?a" by blast
  have n0: "resolve s ?a = Inr n"
    using n s1 pab pba by (auto simp: resolve_del_other split: if_splits)
  from resolve_error[OF ra] have "toFileSystemError (Errno e) oldUri = FileNotFound oldUri" by auto
  with n0 rb ra rm ren show ?thesis
    by (auto simp: fs_exists_def lookup_def readFile_def stat_def fs_stat_def scha schb fs_readFile_def
             split: sum.splits node.splits)
qed

theorem rename_overwrite_witness:
  "rename memfs example_store a_txt b_txt True
     = (None, Directory [(''d'', Directory []), (''b.txt'', File [1, 2])])
   \<and> fs_exists example_store (path a_txt)
   \<and> fs_readFile example_store (path b_txt) = Inr [3]
   \<and> readFile memfs example_store a_txt = Inr [1, 2]
   \<and> readFile memfs (Directory [(''d'', Directory []), (''b.txt'', File [1, 2])]) b_txt
        = Inr [1, 2]
   \<and> stat memfs (Directory [(''d'', Directory []), (''b.txt'', File [1, 2])]) a_txt
        = Inl (FileNotFound a_txt)"
proof -
  have r: "rename memfs example_store a_txt b_txt True
     = (None, Directory [(''d'', Directory []), (''b.txt'', File [1, 2])])"
    by (simp add: rename_def example_defs fs_defs)
  have rd: "readFile memfs example_store a_txt = Inr [1, 2]"
    by (simp add: readFile_def example_defs fs_defs)
  have b: "fs_readFile example_store (path b_txt) = Inr [3]"
    by (simp add: example_defs fs_defs)
  from rename_overwrite[OF r] r rd b show ?thesis by simp
qed

section \<open>Properties of the content search\<close>

lemma polled_simps [simp]:
  "limitHit (polled st) = limitHit st"
  "resultCount (polled st) = resultCount st"
  "progress (polled st) = progress st"
  by (simp_all add: polled_def)

lemma results_polled [simp]: "results (polled st) = results st"
  by (simp add: polled_def)

lemma report_simps [simp]:
  "limitHit (report u ln line i l st) = limitHit st"
  "resultCount (report u ln line i l st) = Suc (resultCount st)"
  "progress (report u ln line i l st) = progress st @
     [\<lparr>res_uri = u, res_ranges = Range_new ln i ln (i + l), preview_text = line,
       preview_matches = Range_new 0 i 0 (i + l)\<rparr>]"
  by (simp_all add: report_def)

lemma steps_poll [simp]: "search_steps s options st (polled st)"
  using step_poll[of s options st] by blast

lemma steps_poll_report:
  "\<not> limitHit st \<Longrightarrow> fs_stat s (path u) = Inr S_IFREG
   \<Longrightarrow> \<not> limit_reached options (resultCount (report u ln line i l (polled st)))
   \<Longrightarrow> search_steps s options st (report u ln line i l (polled st))"
proof -
  assume a: "\<not> limitHit st" "fs_stat s (path u) = Inr S_IFREG"
    "\<not> limit_reached options (resultCount (report u ln line i l (polled st)))"
  have "search_step s options st (polled st)"
    by (rule step_poll)
  moreover have "search_step s options (polled st) (report u ln line i l (polled st))"
    using a by (intro step_report) auto
  ultimately show ?thesis by auto
qed

lemma steps_poll_hit:
  "\<not> limitHit st \<Longrightarrow> fs_stat s (path u) = Inr S_IFREG
   \<Longrightarrow> limit_reached options (resultCount (report u ln line i l (polled st)))
   \<Longrightarrow> search_steps s options st ((report u ln line i l (polled st))\<lparr>limitHit := True\<rparr>)"
proof -
  assume a: "\<not> limitHit st" "fs_stat s (path u) = Inr S_IFREG"
    "limit_reached options (resultCount (report u ln line i l (polled st)))"
  have "search_step s options st (polled st)"
    by (rule step_poll)
  moreover have "search_step s options (polled st)
                   ((report u ln line i l (polled st))\<lparr>limitHit := True\<rparr>)"
    using a by (intro step_hit) auto
  ultimately show ?thesis by auto
qed

lemma regexLoop_steps:
  assumes "regexLoop options token re fileUri lineNumber line lastIndex st = Some r"
    and "fs_stat s (path fileUri) = Inr S_IFREG"
  shows "search_steps s options st (snd r) \<and> (fst r \<longrightarrow> limitHit (snd r))"
  using assms
proof (induction rule: regexLoop.raw_induct[rotated 1, consumes 1])
  case (1 loop options token re fileUri lineNumber line lastIndex st r)
  show ?case
  proof (cases "fst (exec re line lastIndex)")
    case None
    with 1(2) show ?thesis by auto
  next
    case (Some m)
    consider (a) "limitHit st" | (b) "\<not> limitHit st" "isCancellationRequested token st"
      | (c) "\<not> limitHit st" "\<not> isCancellationRequested token st"
            "limit_reached options (resultCount (report fileUri lineNumber line (fst m) (snd m) (polled st)))"
      | (d) "\<not> limitHit st" "\<not> isCancellationRequested token st"
            "\<not> limit_reached options (resultCount (report fileUri lineNumber line (fst m) (snd m) (polled st)))"
      by blast
    then show ?thesis
    proof cases
      case a
      with 1(2) Some show ?thesis by auto
    next
      case b
      with 1(2) Some show ?thesis by auto
    next
      case c
      with 1(2) Some have "r = (True, (report fileUri lineNumber line (fst m) (snd m) (polled st))\<lparr>limitHit := True\<rparr>)"
        by auto
      with steps_poll_hit[OF c(1) 1(3) c(3)] show ?thesis by simp
    next
      case d
      with 1(2) Some have "loop options token re fileUri lineNumber line (snd (exec re line lastIndex))
           (report fileUri lineNumber line (fst m) (snd m) (polled st)) = Some r"
        by auto
      from 1(1)[OF this 1(3)] steps_poll_report[OF d(1) 1(3) d(3)] show ?thesis
        by (auto intro: rtranclp_trans)
    qed
  qed
qed

lemma plainLoop_steps:
  assumes "plainLoop options token fileUri lineNumber line searchLine searchString startIndex st
             = Some r"
    and "fs_stat s (path fileUri) = Inr S_IFREG"
  shows "search_steps s options st (snd r) \<and> (fst r \<longrightarrow> limitHit (snd r))"
  using assms
proof (induction rule: plainLoop.raw_induct[rotated 1, consumes 1])
  case (1 loop options token fileUri lineNumber line searchLine searchString startIndex st r)
  show ?case
  proof (cases "indexOf searchLine searchString startIndex")
    case None
    with 1(2) show ?thesis by auto
  next
    case (Some m)
    let ?st = "report fileUri lineNumber line m (length searchString) (polled st)"
    consider (a) "limitHit st" | (b) "\<not> limitHit st" "isCancellationRequested token st"
      | (c) "\<not> limitHit st" "\<not> isCancellationRequested token st"
            "limit_reached options (resultCount ?st)"
      | (d) "\<not> limitHit st" "\<not> isCancellationRequested token st"
            "\<not> limit_reached options (resultCount ?st)"
      by blast
    then show ?thesis
    proof cases
      case a
      with 1(2) Some show ?thesis by auto
    next
      case b
      with 1(2) Some show ?thesis by auto
    next
      case c
      with 1(2) Some have "r = (True, ?st\<lparr>limitHit := True\<rparr>)"
        by auto
      with steps_poll_hit[OF c(1) 1(3) c(3)] show ?thesis by simp
    next
      case d
      with 1(2) Some have "loop options token fileUri lineNumber line searchLine searchString
           (m + 1) ?st = Some r"
        by auto
      from 1(1)[OF this 1(3)] steps_poll_report[OF d(1) 1(3) d(3)] show ?thesis
        by (auto intro: rtranclp_trans)
    qed
  qed
qed

lemma searchLines_steps:
  assumes "searchLines query options token searchPattern searchString fileUri lines lineNumber st
             = Some st'"
    and "fs_stat s (path fileUri) = Inr S_IFREG"
  shows "search_steps s options st st'"
  using assms
proof (induction lines arbitrary: lineNumber st)
  case Nil
  then show ?case by simp
next
  case (Cons line rest)
  show ?case
  proof (cases "isCancellationRequested token st \<or> limitHit st")
    case True
    with Cons.prems show ?thesis by auto
  next
    case False
    let ?loop = "case searchPattern of
                   Some re \<Rightarrow> regexLoop options token re fileUri lineNumber line 0 (polled st)
                 | None \<Rightarrow>
                     plainLoop options token fileUri lineNumber line
                       (if isCaseSensitive query then line else toLowerCase line)
                       searchString 0 (polled st)"
    from False Cons.prems(1) obtain b st1 where l: "?loop = Some (b, st1)"
      by (auto split: option.splits)
    have st1: "search_steps s options (polled st) st1 \<and> (b \<longrightarrow> limitHit st1)"
      using l regexLoop_steps[OF _ Cons.prems(2)] plainLoop_steps[OF _ Cons.prems(2)]
      by (fastforce split: option.splits)
    then have st01: "search_steps s options st st1"
      by (meson converse_rtranclp_into_rtranclp step_poll)
    show ?thesis
    proof (cases b)
      case True
      with False Cons.prems(1) l have "st' = st1" by auto
      with st01 show ?thesis by simp
    next
      case b: False
      with False Cons.prems(1) l have
        "searchLines query options token searchPattern searchString fileUri rest (Suc lineNumber) st1
           = Some st'"
        by auto
      from Cons.IH[OF this Cons.prems(2)] st01 show ?thesis
        by (auto intro: rtranclp_trans)
    qed
  qed
qed

lemma fs_readFile_regular: "fs_readFile s p = Inr content \<Longrightarrow> fs_stat s p = Inr S_IFREG"
  by (auto simp: fs_readFile_def fs_stat_def split: sum.splits node.splits)

lemma searchInFile_steps:
  assumes "searchInFile s this_scheme query options token searchPattern searchString filePath st
             = Some st'"
  shows "search_steps s options st st'"
proof (cases "isCancellationRequested token st \<or> limitHit st")
  case True
  with assms show ?thesis by (auto simp: searchInFile_def)
next
  case False
  show ?thesis
  proof (cases "fs_readFile s filePath")
    case (Inl e)
    with False assms show ?thesis by (auto simp: searchInFile_def)
  next
    case (Inr content)
    with False assms have
      "searchLines query options token searchPattern searchString (Uri_parse this_scheme filePath)
         (split_lines (decode content)) 0 (polled st) = Some st'"
      by (auto simp: searchInFile_def)
    from searchLines_steps[OF this, of s] fs_readFile_regular[OF Inr]
    have "search_steps s options (polled st) st'"
      by (simp add: Uri_parse_def)
    then show ?thesis
      by (meson converse_rtranclp_into_rtranclp step_poll)
  qed
qed

lemma text_search_steps:
  "(text_searchInFolder s this_scheme query options token searchPattern searchString folderPath st
      = Some st' \<longrightarrow> search_steps s options st st')"
  "(text_searchEntries s this_scheme query options token searchPattern searchString folderPath
      entries st = Some st' \<longrightarrow> search_steps s options st st')"
proof (induction s this_scheme query options token searchPattern searchString folderPath st
         and s this_scheme query options token searchPattern searchString folderPath entries st
       arbitrary: st' and st'
       rule: text_searchInFolder_text_searchEntries.induct)
  case (1 s this_scheme query options token searchPattern searchString folderPath st)
  show ?case
  proof
    assume a: "text_searchInFolder s this_scheme query options token searchPattern searchString
                 folderPath st = Some st'"
    show "search_steps s options st st'"
    proof (cases "isCancellationRequested token st \<or> limitHit st")
      case True
      with a show ?thesis by auto
    next
      case False
      show ?thesis
      proof (cases "fs_readdir s folderPath")
        case (Inl e)
        with False a show ?thesis by auto
      next
        case (Inr entries)
        with False a have "text_searchEntries s this_scheme query options token searchPattern
               searchString folderPath entries (polled st) = Some st'"
          by auto
        with 1[OF False Inr] have "search_steps s options (polled st) st'"
          by blast
        then show ?thesis
          by (meson converse_rtranclp_into_rtranclp step_poll)
      qed
    qed
  qed
next
  case (2 s this_scheme query options token searchPattern searchString folderPath st)
  then show ?case by simp
next
  case (3 s this_scheme query options token searchPattern searchString folderPath entry entries st)
  show ?case
  proof
    assume a: "text_searchEntries s this_scheme query options token searchPattern searchString
                 folderPath (entry # entries) st = Some st'"
    show "search_steps s options st st'"
    proof (cases "isCancellationRequested token st \<or> limitHit st")
      case True
      with a show ?thesis by auto
    next
      case False
      show ?thesis
      proof (cases "fs_stat s (path_join folderPath entry)")
        case (Inl e)
        with False a show ?thesis by auto
      next
        case (Inr stats)
        consider (isdir) "isDirectory stats" | (isfile) "\<not> isDirectory stats" "isFile stats"
          | (neither) "\<not> isDirectory stats" "\<not> isFile stats"
          by blast
        then have "search_steps s options (polled st) st'"
        proof cases
          case isdir
          with False Inr a obtain st1 where
            f: "text_searchInFolder s this_scheme query options token searchPattern searchString
                  (path_join folderPath entry) (polled st) = Some st1"
            and r: "text_searchEntries s this_scheme query options token searchPattern searchString
                  folderPath entries st1 = Some st'"
            by (auto split: option.splits)
          from "3.IH"(1)[OF False Inr isdir] f have "search_steps s options (polled st) st1"
            by blast
          moreover from "3.IH"(2)[OF False Inr isdir f] r have "search_steps s options st1 st'"
            by blast
          ultimately show ?thesis by auto
        next
          case isfile
          with False Inr a obtain st1 where
            f: "searchInFile s this_scheme query options token searchPattern searchString
                  (path_join folderPath entry) (polled st) = Some st1"
            and r: "text_searchEntries s this_scheme query options token searchPattern searchString
                  folderPath entries st1 = Some st'"
            by (auto split: option.splits)
          from "3.IH"(3)[OF False Inr isfile f] r have "search_steps s options st1 st'"
            by blast
          with searchInFile_steps[OF f] show ?thesis by auto
        next
          case neither
          with False Inr a have "text_searchEntries s this_scheme query options token searchPattern
                searchString folderPath entries (polled st) = Some st'"
            by auto
          with "3.IH"(4)[OF False Inr neither] show ?thesis by blast
        qed
        then show ?thesis
          by (meson converse_rtranclp_into_rtranclp step_poll)
      qed
    qed
  qed
qed

lemma text_searchIncludes_steps:
  "text_searchIncludes s this_scheme query options token searchPattern searchString folders st
     = Some st' \<Longrightarrow> search_steps s options st st'"
proof (induction folders arbitrary: st)
  case Nil
  then show ?case by simp
next
  case (Cons folder folders)
  show ?case
  proof (cases "isCancellationRequested token st \<or> limitHit st")
    case True
    with Cons.prems show ?thesis by auto
  next
    case False
    with Cons.prems obtain st1 where
      f: "text_searchInFolder s this_scheme query options token searchPattern searchString
            (path folder) (polled st) = Some st1"
      and r: "text_searchIncludes s this_scheme query options token searchPattern searchString
            folders st1 = Some st'"
      by (auto split: option.splits)
    from text_search_steps(1)[of s this_scheme query options token searchPattern searchString
           "path folder" "polled st" st1] f
    have "search_steps s options (polled st) st1" by blast
    with Cons.IH[OF r] have "search_steps s options (polled st) st'" by auto
    then show ?thesis
      by (meson converse_rtranclp_into_rtranclp step_poll)
  qed
qed

lemma provideTextSearchResults_steps:
  assumes "provideTextSearchResults RegExp_new s this_scheme query options token
             = Some (Inr (lh, st'))"
  shows "search_steps s options initial_tstate st' \<and> lh = limitHit st'"
proof -
  from assms obtain searchPattern searchString st1 where
    i: "text_searchIncludes s this_scheme query options token searchPattern searchString
          (case includePaths options of None \<Rightarrow> [] | Some folders \<Rightarrow> folders) initial_tstate
          = Some st1"
    and r: "(if includePaths options = None \<or> includePaths options = Some []
             then text_searchInFolder s this_scheme query options token searchPattern
                    searchString [] st1
             else Some st1) = Some st'"
    and lh: "lh = limitHit st'"
    unfolding provideTextSearchResults_def initial_tstate_def Let_def
    by (auto split: sum.splits option.splits if_splits)
  have "search_steps s options st1 st'"
    using r text_search_steps(1)[of s this_scheme query options token searchPattern searchString
           "[]" st1 st']
    by (auto split: if_splits)
  with text_searchIncludes_steps[OF i] lh show ?thesis by auto
qed

subsection \<open>What every step keeps\<close>


lemma steps_after_limit:
  assumes "search_steps s options st st'" and "limitHit st"
  shows "limitHit st' \<and> progress st' = progress st \<and> resultCount st' = resultCount st"
  using assms
proof (induction rule: rtranclp_induct)
  case base
  then show ?case by simp
next
  case (step y z)
  from step(2) step(3)[OF step(4)] show ?case
    by (cases rule: search_step.cases) auto
qed

lemma steps_capped:
  assumes "search_steps s options st st'" and "maxResults options = Some m" and "0 < m"
    and "capped m st"
  shows "capped m st'"
  using assms
proof (induction rule: rtranclp_induct)
  case base
  then show ?case by simp
next
  case (step y z)
  from step(2) step(3)[OF step(4-6)] step(4,5) show ?case
    by (cases rule: search_step.cases) (auto simp: capped_def limit_reached_def)
qed

subsection \<open>With a positive cap the search returns\<close>

lemma regexLoop_cap_returns:
  assumes "maxResults options = Some m" and "0 < m"
  shows "\<exists>r. regexLoop options token re fileUri lineNumber line lastIndex st = Some r"
proof (induction "m - resultCount st" arbitrary: st lastIndex rule: less_induct)
  case less
  show ?case
  proof (cases "fst (exec re line lastIndex)")
    case None
    then show ?thesis by (subst regexLoop.simps) auto
  next
    case (Some mt)
    let ?st = "report fileUri lineNumber line (fst mt) (snd mt) (polled st)"
    show ?thesis
    proof (cases "limitHit st \<or> isCancellationRequested token st
                  \<or> limit_reached options (resultCount ?st)")
      case True
      with Some show ?thesis by (subst regexLoop.simps) auto
    next
      case False
      then have "m - resultCount ?st < m - resultCount st"
        using assms by (auto simp: limit_reached_def)
      from less[OF this] obtain r where
        "regexLoop options token re fileUri lineNumber line (snd (exec re line lastIndex)) ?st
           = Some r"
        by blast
      with Some False show ?thesis by (subst regexLoop.simps) auto
    qed
  qed
qed

lemma plainLoop_cap_returns:
  assumes "maxResults options = Some m" and "0 < m"
  shows "\<exists>r. plainLoop options token fileUri lineNumber line searchLine searchString startIndex st
           = Some r"
proof (induction "m - resultCount st" arbitrary: st startIndex rule: less_induct)
  case less
  show ?case
  proof (cases "indexOf searchLine searchString startIndex")
    case None
    then show ?thesis by (subst plainLoop.simps) auto
  next
    case (Some mi)
    let ?st = "report fileUri lineNumber line mi (length searchString) (polled st)"
    show ?thesis
    proof (cases "limitHit st \<or> isCancellationRequested token st
                  \<or> limit_reached options (resultCount ?st)")
      case True
      with Some show ?thesis by (subst plainLoop.simps) auto
    next
      case False
      then have "m - resultCount ?st < m - resultCount st"
        using assms by (auto simp: limit_reached_def)
      from less[OF this] obtain r where
        "plainLoop options token fileUri lineNumber line searchLine searchString (mi + 1) ?st
           = Some r"
        by blast
      with Some False show ?thesis by (subst plainLoop.simps) auto
    qed
  qed
qed

lemma searchLines_cap_returns:
  assumes "maxResults options = Some m" and "0 < m"
  shows "\<exists>st'. searchLines query options token searchPattern searchString fileUri lines
                 lineNumber st = Some st'"
proof (induction lines arbitrary: lineNumber st)
  case Nil
  then show ?case by simp
next
  case (Cons line rest)
  let ?loop = "case searchPattern of
                 Some re \<Rightarrow> regexLoop options token re fileUri lineNumber line 0 (polled st)
               | None \<Rightarrow>
                   plainLoop options token fileUri lineNumber line
                     (if isCaseSensitive query then line else toLowerCase line)
                     searchString 0 (polled st)"
  obtain b st1 where l: "?loop = Some (b, st1)"
    using regexLoop_cap_returns[OF assms] plainLoop_cap_returns[OF assms]
    by (cases searchPattern) fastforce+
  from Cons[of "Suc lineNumber" st1] l show ?case
    by auto
qed

lemma searchInFile_cap_returns:
  assumes "maxResults options = Some m" and "0 < m"
  shows "\<exists>st'. searchInFile s this_scheme query options token searchPattern searchString
                 filePath st = Some st'"
  using searchLines_cap_returns[OF assms]
  by (auto simp: searchInFile_def split: sum.splits)

lemma text_search_cap_returns:
  assumes "maxResults options = Some m" and "0 < m"
  shows "\<exists>st'. text_searchInFolder s this_scheme query options token searchPattern searchString
                 folderPath st = Some st'"
    and "\<exists>st'. text_searchEntries s this_scheme query options token searchPattern searchString
                 folderPath entries st = Some st'"
  using assms
proof (induction s this_scheme query options token searchPattern searchString folderPath st
         and s this_scheme query options token searchPattern searchString folderPath entries st
       rule: text_searchInFolder_text_searchEntries.induct)
  case (1 s this_scheme query options token searchPattern searchString folderPath st)
  show ?case
  proof (cases "isCancellationRequested token st \<or> limitHit st")
    case True
    then show ?thesis by auto
  next
    case False
    show ?thesis
    proof (cases "fs_readdir s folderPath")
      case (Inl e)
      with False show ?thesis by auto
    next
      case (Inr entries)
      from 1(1)[OF False Inr 1(2,3)] False Inr show ?thesis by auto
    qed
  qed
next
  case (2 s this_scheme query options token searchPattern searchString folderPath st)
  then show ?case by simp
next
  case (3 s this_scheme query options token searchPattern searchString folderPath entry entries st)
  show ?case
  proof (cases "isCancellationRequested token st \<or> limitHit st")
    case True
    then show ?thesis by auto
  next
    case False
    show ?thesis
    proof (cases "fs_stat s (path_join folderPath entry)")
      case (Inl e)
      with False show ?thesis by auto
    next
      case (Inr stats)
      consider (isdir) "isDirectory stats" | (isfile) "\<not> isDirectory stats" "isFile stats"
        | (neither) "\<not> isDirectory stats" "\<not> isFile stats"
        by blast
      then show ?thesis
      proof cases
        case isdir
        from "3.IH"(1)[OF False Inr isdir "3.prems"] obtain st1 where
          f: "text_searchInFolder s this_scheme query options token searchPattern searchString
                (path_join folderPath entry) (polled st) = Some st1"
          by blast
        from "3.IH"(2)[OF False Inr isdir f "3.prems"] f False Inr isdir show ?thesis
          by auto
      next
        case isfile
        from searchInFile_cap_returns[OF "3.prems"] obtain st1 where
          f: "searchInFile s this_scheme query options token searchPattern searchString
                (path_join folderPath entry) (polled st) = Some st1"
          by blast
        from "3.IH"(3)[OF False Inr isfile f "3.prems"] f False Inr isfile show ?thesis
          by auto
      next
        case neither
        from "3.IH"(4)[OF False Inr neither "3.prems"] False Inr neither show ?thesis
          by auto
      qed
    qed
  qed
qed

lemma text_searchIncludes_cap_returns:
  assumes "maxResults options = Some m" and "0 < m"
  shows "\<exists>st'. text_searchIncludes s this_scheme query options token searchPattern searchString
                 folders st = Some st'"
proof (induction folders arbitrary: st)
  case Nil
  then show ?case by simp
next
  case (Cons folder folders)
  obtain st1 where
    "text_searchInFolder s this_scheme query options token searchPattern searchString
       (path folder) (polled st) = Some st1"
    using text_search_cap_returns(1)[OF assms] by blast
  with Cons[of st1] show ?case by auto
qed

lemma provideTextSearchResults_cap_returns:
  assumes "maxResults options = Some m" and "0 < m"
  shows "\<exists>r. provideTextSearchResults RegExp_new s this_scheme query options token = Some r"
proof (cases "if isRegExp query
            then (case RegExp_new (pattern query) (if isCaseSensitive query then ''g'' else ''gi'') of
                    None \<Rightarrow> Inl SyntaxError
                  | Some re \<Rightarrow> Inr (Some re))
            else Inr None")
  case (Inl err)
  then show ?thesis
    by (simp add: provideTextSearchResults_def)
next
  case (Inr searchPattern)
  let ?searchString = "if isCaseSensitive query then pattern query else toLowerCase (pattern query)"
  obtain st1 where
    a: "text_searchIncludes s this_scheme query options token searchPattern ?searchString
          (case includePaths options of None \<Rightarrow> [] | Some folders \<Rightarrow> folders)
          \<lparr>polls = 0, limitHit = False, resultCount = 0, progress = []\<rparr> = Some st1"
    using text_searchIncludes_cap_returns[OF assms] by blast
  obtain st2 where
    b: "text_searchInFolder s this_scheme query options token searchPattern ?searchString [] st1
          = Some st2"
    using text_search_cap_returns(1)[OF assms] by blast
  show ?thesis
    unfolding provideTextSearchResults_def Let_def Inr using a b by simp
qed

section \<open>Properties of the filename search\<close>

lemma regular_results_polled [simp]:
  "regular_results s this_scheme (polled st) = regular_results s this_scheme st"
  by (simp add: regular_results_def)




section \<open>Claims about the search providers\<close>

lemma decode_encode [simp]: "decode (encode str) = str"
proof -
  have "char_of (unat (of_nat (of_char c) :: 8 word)) = c" for c :: char
    by (simp add: unat_of_nat)
  then show ?thesis
    by (simp add: decode_def encode_def map_idI)
qed

lemmas search_defs =
  never_def isCancellationRequested_def polled_def fs_readdir_def fs_stat_def fs_readFile_def
  path_join_def limit_reached_def includes_string_def indexOf_def toLowerCase_def
  char_toLowerCase_def Uri_parse_def report_def Range_new_def searchInFile_def LF_def CR_def
  plainLoop.simps eval_nat_numeral Let_def

text \<open>
  C2.  The cap of the filename search is not kept.  The two tests of the count leave only
  the loop of the folder they are in: the loop of the enclosing folder goes on, and
  appends the next file that matches before it tests the count again.  With a cap of 1,
  the directory \<open>d\<close> holding \<open>a1.ts\<close>, followed by \<open>a2.ts\<close> and \<open>a3.ts\<close>, gives two results.
\<close>

theorem fileSearch_exceeds_maxResults:
  "provideFileSearchResults nested_store memfs ''a''
     \<lparr>includePaths = None, maxResults = Some 1\<rparr> never
   = [\<lparr>scheme = ''memfs'', path = [''d'', ''a1.ts'']\<rparr>, \<lparr>scheme = ''memfs'', path = [''a2.ts'']\<rparr>]"
  by (simp add: provideFileSearchResults_def nested_store_def memfs_def search_defs)

lemma text_special:
  "provideTextSearchResults no_RegExp special_store memfs foo_query
       \<lparr>includePaths = None, maxResults = None\<rparr> never
     = Some (Inr (False, \<lparr>polls = 8, limitHit = False, resultCount = 2,
                           progress = [foo_match 0 3, foo_match 8 11]\<rparr>))"
  by (simp add: provideTextSearchResults_def special_store_def memfs_def foo_query_def
        foo_match_def search_defs)

lemma text_special_1:
  "provideTextSearchResults no_RegExp special_store memfs foo_query
       \<lparr>includePaths = None, maxResults = Some 1\<rparr> never
     = Some (Inr (True, \<lparr>polls = 7, limitHit = True, resultCount = 1,
                           progress = [foo_match 0 3]\<rparr>))"
  by (simp add: provideTextSearchResults_def special_store_def memfs_def foo_query_def
        foo_match_def search_defs)


lemma regexLoop_after_limit:
  "limitHit st \<Longrightarrow>
     regexLoop options token re fileUri lineNumber line lastIndex st = Some (False, st)"
  by (subst regexLoop.simps) (simp split: option.splits)

lemma plainLoop_after_limit:
  "limitHit st \<Longrightarrow>
     plainLoop options token fileUri lineNumber line searchLine searchString startIndex st
       = Some (False, st)"
  by (subst plainLoop.simps) (simp split: option.splits)

lemma searchLines_after_limit:
  "limitHit st \<Longrightarrow>
     searchLines query options token searchPattern searchString fileUri lines lineNumber st
       = Some st' \<Longrightarrow> limitHit st' \<and> progress st' = progress st"
  by (cases lines) auto

text \<open>
  C3.  With a positive cap \<open>m\<close>, the content search returns; when it returns normally,
  it has made at most \<open>m\<close> progress reports, and the \<open>limitHit\<close> it returns is set
  exactly when it has made \<open>m\<close> of them.  Once the flag is set nothing more is reported:
  started with the flag set, each loop over the matches of a line ends at once, and the
  loop over the lines, \<open>searchInFile\<close>, \<open>searchInFolder\<close>, the loop over the entries of a
  folder and the loop over the folders to search return with the flag set and the same
  progress reports.
\<close>

theorem content_search_limit:
  assumes "maxResults options = Some m" and "0 < m"
  shows "(\<exists>r. provideTextSearchResults RegExp_new s this_scheme query options token = Some r)
    \<and> (\<forall>lh st'. provideTextSearchResults RegExp_new s this_scheme query options token
                    = Some (Inr (lh, st'))
          \<longrightarrow> length (progress st') \<le> m \<and> (lh \<longleftrightarrow> length (progress st') = m)
              \<and> lh = limitHit st')
    \<and> (\<forall>st. limitHit st \<longrightarrow>
          regexLoop options token re fileUri lineNumber line lastIndex st = Some (False, st)
        \<and> plainLoop options token fileUri lineNumber line searchLine searchString startIndex st
            = Some (False, st))
    \<and> (\<forall>st st'. limitHit st
          \<and> searchLines query options token searchPattern searchString fileUri lines lineNumber st
              = Some st'
          \<longrightarrow> limitHit st' \<and> progress st' = progress st)
    \<and> (\<forall>st st'. limitHit st
          \<and> searchInFile s this_scheme query options token searchPattern searchString filePath st
              = Some st'
          \<longrightarrow> limitHit st' \<and> progress st' = progress st)
    \<and> (\<forall>st st'. limitHit st
          \<and> text_searchInFolder s this_scheme query options token searchPattern searchString
                folderPath st = Some st'
          \<longrightarrow> limitHit st' \<and> progress st' = progress st)
    \<and> (\<forall>st st'. limitHit st
          \<and> text_searchEntries s this_scheme query options token searchPattern searchString
                folderPath entries st = Some st'
          \<longrightarrow> limitHit st' \<and> progress st' = progress st)
    \<and> (\<forall>st st'. limitHit st
          \<and> text_searchIncludes s this_scheme query options token searchPattern searchString
                folders st = Some st'
          \<longrightarrow> limitHit st' \<and> progress st' = progress st)"
proof (intro conjI allI impI)
  show "\<exists>r. provideTextSearchResults RegExp_new s this_scheme query options token = Some r"
    by (rule provideTextSearchResults_cap_returns[OF assms])
next
  fix lh st'
  assume r: "provideTextSearchResults RegExp_new s this_scheme query options token
               = Some (Inr (lh, st'))"
  from provideTextSearchResults_steps[OF r]
  have st: "search_steps s options initial_tstate st'" and lh: "lh = limitHit st'"
    by auto
  have "capped m initial_tstate"
    using assms by (simp add: capped_def initial_tstate_def)
  from steps_capped[OF st assms this] have c: "capped m st'" .
  from c show "length (progress st') \<le> m"
    by (auto simp: capped_def split: if_splits)
  from c lh show "lh \<longleftrightarrow> length (progress st') = m"
    by (auto simp: capped_def split: if_splits)
  from lh show "lh = limitHit st'" .
next
  fix st :: tstate
  assume "limitHit st"
  then show "regexLoop options token re fileUri lineNumber line lastIndex st = Some (False, st)"
    and "plainLoop options token fileUri lineNumber line searchLine searchString startIndex st
           = Some (False, st)"
    by (simp_all add: regexLoop_after_limit plainLoop_after_limit)
next
  fix st st'
  assume "limitHit st
          \<and> searchLines query options token searchPattern searchString fileUri lines lineNumber st
              = Some st'"
  then show "limitHit st'" and "progress st' = progress st"
    using searchLines_after_limit by blast+
next
  fix st st'
  assume a: "limitHit st
          \<and> searchInFile s this_scheme query options token searchPattern searchString filePath st
              = Some st'"
  then have "search_steps s options st st'"
    using searchInFile_steps by blast
  from steps_after_limit[OF this] a show "limitHit st'" and "progress st' = progress st"
    by auto
next
  fix st st'
  assume a: "limitHit st
          \<and> text_searchInFolder s this_scheme query options token searchPattern searchString
                folderPath st = Some st'"
  then have "search_steps s options st st'"
    using text_search_steps(1) by blast
  from steps_after_limit[OF this] a show "limitHit st'" and "progress st' = progress st"
    by auto
next
  fix st st'
  assume a: "limitHit st
          \<and> text_searchEntries s this_scheme query options token searchPattern searchString
                folderPath entries st = Some st'"
  then have "search_steps s options st st'"
    using text_search_steps(2) by blast
  from steps_after_limit[OF this] a show "limitHit st'" and "progress st' = progress st"
    by auto
next
  fix st st'
  assume a: "limitHit st
          \<and> text_searchIncludes s this_scheme query options token searchPattern searchString
                folders st = Some st'"
  then have "search_steps s options st st'"
    using text_searchIncludes_steps by blast
  from steps_after_limit[OF this] a show "limitHit st'" and "progress st' = progress st"
    by auto
qed

theorem content_search_limit_witness:
  "maxResults \<lparr>includePaths = None, maxResults = Some 1\<rparr> = Some 1 \<and> (0 :: nat) < 1
   \<and> provideTextSearchResults no_RegExp special_store memfs foo_query
         \<lparr>includePaths = None, maxResults = Some 1\<rparr> never
       = Some (Inr (True, \<lparr>polls = 7, limitHit = True, resultCount = 1,
                             progress = [foo_match 0 3]\<rparr>))
   \<and> length (progress \<lparr>polls = 7, limitHit = True, resultCount = 1,
                         progress = [foo_match 0 3]\<rparr>) \<le> 1"
proof -
  have m: "maxResults \<lparr>includePaths = None, maxResults = Some 1\<rparr> = Some 1"
    by simp
  have p: "(0 :: nat) < 1"
    by simp
  have r: "provideTextSearchResults no_RegExp special_store memfs foo_query
         \<lparr>includePaths = None, maxResults = Some 1\<rparr> never
       = Some (Inr (True, \<lparr>polls = 7, limitHit = True, resultCount = 1,
                             progress = [foo_match 0 3]\<rparr>))"
    by (rule text_special_1)
  from content_search_limit[OF m p, THEN conjunct2, THEN conjunct1, rule_format, OF r]
  have "length (progress \<lparr>polls = 7, limitHit = True, resultCount = 1,
                           progress = [foo_match 0 3]\<rparr>) \<le> 1"
    by blast
  with m p r show ?thesis by blast
qed



section \<open>The matches on one line\<close>

lemma occurs_at_bound:
  "occurs_at s searchString i \<Longrightarrow> searchString \<noteq> [] \<Longrightarrow> i < Suc (length s) - length searchString"
proof -
  assume a: "occurs_at s searchString i" and n: "searchString \<noteq> []"
  from a have "length (take (length searchString) (drop i s)) = length searchString"
    by (simp add: occurs_at_def)
  then have "length searchString \<le> length s - i" by simp
  with n show ?thesis by (cases searchString) auto
qed

lemma upt_split: "i \<le> j \<Longrightarrow> j \<le> k \<Longrightarrow> [i ..< k] = [i ..< j] @ [j ..< k]"
  using upt_add_eq_append[of i j "k - j"] by simp

lemma filter_occurs_upto:
  assumes "searchString \<noteq> []"
  shows "filter (occurs_at s searchString) [k ..< length s]
       = filter (occurs_at s searchString) [k ..< Suc (length s) - length searchString]"
proof -
  let ?U = "Suc (length s) - length searchString"
  have U: "?U \<le> length s" using assms by (cases searchString) auto
  show ?thesis
  proof (cases "k \<le> ?U")
    case True
    then have "[k ..< length s] = [k ..< ?U] @ [?U ..< length s]"
      using U by (rule upt_split)
    moreover have "filter (occurs_at s searchString) [?U ..< length s] = []"
      by (auto simp: filter_empty_conv dest!: occurs_at_bound[OF _ assms])
    ultimately show ?thesis by simp
  next
    case False
    then have "filter (occurs_at s searchString) [k ..< length s] = []"
      by (auto simp: filter_empty_conv dest!: occurs_at_bound[OF _ assms])
    with False show ?thesis by simp
  qed
qed

lemma find_upt_None: "find P [k ..< u] = None \<Longrightarrow> filter P [k ..< u] = []"
  by (auto simp: find_None_iff filter_empty_conv)

lemma find_upt_Some:
  assumes "find P [k ..< u] = Some i"
  shows "k \<le> i \<and> i < u \<and> filter P [k ..< u] = i # filter P [Suc i ..< u]"
proof -
  from assms obtain j where j: "j < u - k" "P ([k ..< u] ! j)" "i = [k ..< u] ! j"
    "\<forall>j' < j. \<not> P ([k ..< u] ! j')"
    by (auto simp: find_Some_iff)
  then have i: "i = k + j" "k \<le> i" "i < u" by auto
  have none: "filter P [k ..< i] = []"
  proof -
    have "\<not> P x" if "x \<in> set [k ..< i]" for x
    proof -
      from that have "x - k < j" "x = [k ..< u] ! (x - k)" using i by auto
      with j(4) show ?thesis by metis
    qed
    then show ?thesis by (auto simp: filter_empty_conv)
  qed
  have "[k ..< u] = [k ..< i] @ [i ..< u]"
    using i by (intro upt_split) auto
  moreover have "[i ..< u] = i # [Suc i ..< u]"
    using i(3) by (rule upt_conv_Cons)
  ultimately have "filter P [k ..< u] = filter P [k ..< i] @ filter P (i # [Suc i ..< u])"
    by (metis filter_append)
  with none j(2) i show ?thesis by simp
qed

lemma indexOf_nonempty:
  assumes "searchString \<noteq> []"
  shows "indexOf s searchString k
       = find (occurs_at s searchString) [k ..< Suc (length s) - length searchString]"
proof -
  let ?U = "Suc (length s) - length searchString"
  have U: "?U \<le> length s" using assms by (cases searchString) auto
  have "[min k (length s) ..< ?U] = [k ..< ?U]"
    using U by (cases "k \<le> length s") auto
  then show ?thesis
    unfolding indexOf_def occurs_at_def by simp
qed

lemma plainLoop_all_occurrences:
  assumes "searchString \<noteq> []" and "maxResults options = None" and "\<forall>n. \<not> token n"
    and "\<not> limitHit st"
  shows "\<exists>st'. plainLoop options token fileUri lineNumber line searchLine searchString k st
                 = Some (False, st')
           \<and> \<not> limitHit st'
           \<and> progress st' = progress st @
                map (\<lambda>i. match_at fileUri lineNumber line i (length searchString))
                  (filter (occurs_at searchLine searchString)
                     [k ..< Suc (length searchLine) - length searchString])"
  using assms(4)
proof (induction "Suc (length searchLine) - length searchString - k" arbitrary: k st
         rule: less_induct)
  case less
  let ?U = "Suc (length searchLine) - length searchString"
  show ?case
  proof (cases "find (occurs_at searchLine searchString) [k ..< ?U]")
    case None
    then have "plainLoop options token fileUri lineNumber line searchLine searchString k st
                 = Some (False, st)"
      by (subst plainLoop.simps) (simp add: indexOf_nonempty[OF assms(1)])
    with find_upt_None[OF None] less.prems show ?thesis by simp
  next
    case (Some i)
    let ?st = "report fileUri lineNumber line i (length searchString) (polled st)"
    from find_upt_Some[OF Some] have i: "k \<le> i" "i < ?U"
      and f: "filter (occurs_at searchLine searchString) [k ..< ?U]
              = i # filter (occurs_at searchLine searchString) [Suc i ..< ?U]"
      by auto
    have unfold: "plainLoop options token fileUri lineNumber line searchLine searchString k st
         = plainLoop options token fileUri lineNumber line searchLine searchString (Suc i) ?st"
      using Some less.prems assms(2,3)
      by (subst plainLoop.simps)
         (simp add: indexOf_nonempty[OF assms(1)] isCancellationRequested_def limit_reached_def)
    have "?U - Suc i < ?U - k" using i by auto
    from less.hyps[OF this, of ?st] less.prems obtain st' where
      "plainLoop options token fileUri lineNumber line searchLine searchString (Suc i) ?st
         = Some (False, st')"
      "\<not> limitHit st'"
      "progress st' = progress ?st @
                map (\<lambda>i. match_at fileUri lineNumber line i (length searchString))
                  (filter (occurs_at searchLine searchString) [Suc i ..< ?U])"
      by auto
    with unfold f show ?thesis
      by (simp add: match_at_def)
  qed
qed

text \<open>
  C7.  A literal search for a string that is not empty, with no cap, a token that is
  never cancelled and the limit flag not set, ends and reports, in increasing order,
  every index of the line at which the search string occurs, overlapping occurrences
  included: after a match at \<open>i\<close> the loop goes on from \<open>i + 1\<close>.  The case-insensitive
  search for \<open>foo\<close> in a file whose only line is \<open>Foo bar foo\<close> reports two matches, of
  length 3, at columns 0 and 8.
\<close>

theorem literal_search_reports_every_occurrence:
  assumes "searchString \<noteq> []" and "maxResults options = None" and "\<forall>n. \<not> token n"
    and "\<not> limitHit st"
  shows "(\<exists>st'. plainLoop options token fileUri lineNumber line searchLine searchString 0 st
                  = Some (False, st')
            \<and> progress st' = progress st @
                 map (\<lambda>i. match_at fileUri lineNumber line i (length searchString))
                   (filter (occurs_at searchLine searchString) [0 ..< length searchLine]))
       \<and> (\<forall>k i. indexOf searchLine searchString k = Some i \<longrightarrow>
             plainLoop options token fileUri lineNumber line searchLine searchString k st
             = plainLoop options token fileUri lineNumber line searchLine searchString (i + 1)
                 (report fileUri lineNumber line i (length searchString) (polled st)))
       \<and> provideTextSearchResults no_RegExp special_store memfs foo_query
             \<lparr>includePaths = None, maxResults = None\<rparr> never
           = Some (Inr (False, \<lparr>polls = 8, limitHit = False, resultCount = 2,
                 progress = [match_at \<lparr>scheme = ''memfs'', path = [''a.txt'']\<rparr> 0
                               ''Foo bar foo'' 0 3,
                             match_at \<lparr>scheme = ''memfs'', path = [''a.txt'']\<rparr> 0
                               ''Foo bar foo'' 8 3]\<rparr>))"
proof (intro conjI allI impI)
  from plainLoop_all_occurrences[OF assms, of fileUri lineNumber line searchLine 0]
  show "\<exists>st'. plainLoop options token fileUri lineNumber line searchLine searchString 0 st
                  = Some (False, st')
            \<and> progress st' = progress st @
                 map (\<lambda>i. match_at fileUri lineNumber line i (length searchString))
                   (filter (occurs_at searchLine searchString) [0 ..< length searchLine])"
    by (auto simp: filter_occurs_upto[OF assms(1)])
next
  fix k i
  assume "indexOf searchLine searchString k = Some i"
  then show "plainLoop options token fileUri lineNumber line searchLine searchString k st
             = plainLoop options token fileUri lineNumber line searchLine searchString (i + 1)
                 (report fileUri lineNumber line i (length searchString) (polled st))"
    using assms(2,3,4)
    by (subst plainLoop.simps) (simp add: isCancellationRequested_def limit_reached_def)
next
  show "provideTextSearchResults no_RegExp special_store memfs foo_query
             \<lparr>includePaths = None, maxResults = None\<rparr> never
           = Some (Inr (False, \<lparr>polls = 8, limitHit = False, resultCount = 2,
                 progress = [match_at \<lparr>scheme = ''memfs'', path = [''a.txt'']\<rparr> 0
                               ''Foo bar foo'' 0 3,
                             match_at \<lparr>scheme = ''memfs'', path = [''a.txt'']\<rparr> 0
                               ''Foo bar foo'' 8 3]\<rparr>))"
    using text_special by (simp add: foo_match_def match_at_def)
qed

theorem literal_search_reports_every_occurrence_witness:
  "''aa'' \<noteq> [] \<and> maxResults \<lparr>includePaths = None, maxResults = None\<rparr> = None
   \<and> (\<forall>n. \<not> never n) \<and> \<not> limitHit initial_tstate
   \<and> plainLoop \<lparr>includePaths = None, maxResults = None\<rparr> never a_txt 0 ''aaa'' ''aaa'' ''aa'' 0
         initial_tstate
       = Some (False, \<lparr>polls = 2, limitHit = False, resultCount = 2,
                         progress = [match_at a_txt 0 ''aaa'' 0 2, match_at a_txt 0 ''aaa'' 1 2]\<rparr>)
   \<and> progress \<lparr>polls = 2, limitHit = False, resultCount = 2,
                 progress = [match_at a_txt 0 ''aaa'' 0 2, match_at a_txt 0 ''aaa'' 1 2]\<rparr>
       = progress initial_tstate @
           map (\<lambda>i. match_at a_txt 0 ''aaa'' i (length ''aa''))
             (filter (occurs_at ''aaa'' ''aa'') [0 ..< length ''aaa''])"
proof -
  have h: "''aa'' \<noteq> []" "maxResults \<lparr>includePaths = None, maxResults = None\<rparr> = None"
    "\<forall>n. \<not> never n" "\<not> limitHit initial_tstate"
    by (simp_all add: never_def initial_tstate_def)
  have e: "plainLoop \<lparr>includePaths = None, maxResults = None\<rparr> never a_txt 0 ''aaa'' ''aaa'' ''aa'' 0
         initial_tstate
       = Some (False, \<lparr>polls = 2, limitHit = False, resultCount = 2,
                         progress = [match_at a_txt 0 ''aaa'' 0 2, match_at a_txt 0 ''aaa'' 1 2]\<rparr>)"
    by (simp add: initial_tstate_def match_at_def search_defs)
  from literal_search_reports_every_occurrence[OF h, THEN conjunct1,
         of a_txt 0 "''aaa''" "''aaa''"] e
  have "progress \<lparr>polls = 2, limitHit = False, resultCount = 2,
                 progress = [match_at a_txt 0 ''aaa'' 0 2, match_at a_txt 0 ''aaa'' 1 2]\<rparr>
       = progress initial_tstate @
           map (\<lambda>i. match_at a_txt 0 ''aaa'' i (length ''aa''))
             (filter (occurs_at ''aaa'' ''aa'') [0 ..< length ''aaa''])"
    by auto
  with h e show ?thesis by blast
qed

text \<open>
  \<open>nonempty_matches re line\<close>: from every index of the line, a match that the expression
  finds starts at or after the index and is not empty.  \<open>empty_match\<close> is an expression
  that matches the empty string at every index, and \<open>literal_re x\<close> one that matches the
  string \<open>x\<close>.
\<close>

lemma regexLoop_nonempty:
  assumes "nonempty_matches re line"
  shows "\<exists>b st' new. regexLoop options token re fileUri lineNumber line lastIndex st
                        = Some (b, st')
           \<and> progress st' = progress st @ new
           \<and> (\<forall>c \<in> set (start_columns new). lastIndex \<le> c)
           \<and> sorted_wrt (<) (start_columns new)"
proof (induction "Suc (length line) - lastIndex" arbitrary: lastIndex st rule: less_induct)
  case less
  show ?case
  proof (cases "fst (exec re line lastIndex)")
    case None
    then have "regexLoop options token re fileUri lineNumber line lastIndex st = Some (False, st)"
      by (subst regexLoop.simps) simp
    then show ?thesis
      by (intro exI[of _ False] exI[of _ st] exI[of _ "[]"]) (simp add: start_columns_def)
  next
    case (Some m)
    then have le: "lastIndex \<le> length line" and re: "re line lastIndex = Some m"
      by (auto simp: exec_def split: if_splits option.splits)
    from assms le have
      "case re line lastIndex of None \<Rightarrow> True | Some (index, len) \<Rightarrow> lastIndex \<le> index \<and> 0 < len"
      unfolding nonempty_matches_def by blast
    with re have m: "lastIndex \<le> fst m" "0 < snd m"
      by (cases m; simp)+
    from le re have next_index: "snd (exec re line lastIndex) = fst m + snd m"
      by (auto simp: exec_def split: prod.splits)
    let ?st = "report fileUri lineNumber line (fst m) (snd m) (polled st)"
    consider (stop) "limitHit st \<or> isCancellationRequested token st"
      | (hit) "\<not> limitHit st" "\<not> isCancellationRequested token st"
              "limit_reached options (resultCount ?st)"
      | (go) "\<not> limitHit st" "\<not> isCancellationRequested token st"
              "\<not> limit_reached options (resultCount ?st)"
      by blast
    then show ?thesis
    proof cases
      case stop
      then have "regexLoop options token re fileUri lineNumber line lastIndex st = Some (False, st)
          \<or> regexLoop options token re fileUri lineNumber line lastIndex st
               = Some (False, polled st)"
        using Some by (subst (1 2) regexLoop.simps) auto
      then show ?thesis
      proof
        assume "regexLoop options token re fileUri lineNumber line lastIndex st = Some (False, st)"
        then show ?thesis
          by (intro exI[of _ False] exI[of _ st] exI[of _ "[]"]) (simp add: start_columns_def)
      next
        assume "regexLoop options token re fileUri lineNumber line lastIndex st
                  = Some (False, polled st)"
        then show ?thesis
          by (intro exI[of _ False] exI[of _ "polled st"] exI[of _ "[]"])
             (simp add: start_columns_def)
      qed
    next
      case hit
      then have "regexLoop options token re fileUri lineNumber line lastIndex st
                   = Some (True, ?st\<lparr>limitHit := True\<rparr>)"
        using Some by (subst regexLoop.simps) auto
      moreover have "progress (?st\<lparr>limitHit := True\<rparr>) = progress st @ [match_at fileUri lineNumber line (fst m) (snd m)]"
        by (simp add: match_at_def)
      ultimately show ?thesis
        using m
        by (intro exI[of _ True] exI[of _ "?st\<lparr>limitHit := True\<rparr>"]
              exI[of _ "[match_at fileUri lineNumber line (fst m) (snd m)]"])
           (simp add: start_columns_def match_at_def Range_new_def)
    next
      case go
      then have unfold: "regexLoop options token re fileUri lineNumber line lastIndex st
           = regexLoop options token re fileUri lineNumber line (fst m + snd m) ?st"
        using Some next_index by (subst regexLoop.simps) auto
      have "Suc (length line) - (fst m + snd m) < Suc (length line) - lastIndex"
        using m le by auto
      from less[OF this, of ?st] obtain b st' new where
        r: "regexLoop options token re fileUri lineNumber line (fst m + snd m) ?st = Some (b, st')"
        and p: "progress st' = progress ?st @ new"
        and c: "\<forall>c \<in> set (start_columns new). fst m + snd m \<le> c"
        and s: "sorted_wrt (<) (start_columns new)"
        by blast
      let ?new = "match_at fileUri lineNumber line (fst m) (snd m) # new"
      have "progress st' = progress st @ ?new"
        using p by (simp add: match_at_def)
      moreover have "\<forall>c \<in> set (start_columns ?new). lastIndex \<le> c"
        using c m by (auto simp: start_columns_def match_at_def Range_new_def)
      moreover have "sorted_wrt (<) (start_columns ?new)"
        using c s m by (auto simp: start_columns_def match_at_def Range_new_def)
      moreover have "regexLoop options token re fileUri lineNumber line lastIndex st
                       = Some (b, st')"
        using unfold r by simp
      ultimately show ?thesis
        by (intro exI[of _ b] exI[of _ st'] exI[of _ ?new]) simp
    qed
  qed
qed

lemma regexLoop_empty_match_diverges:
  assumes "regexLoop options token re fileUri lineNumber line lastIndex st = Some r"
  shows "\<not> (re = empty_match \<and> maxResults options = None \<and> (\<forall>n. \<not> token n)
            \<and> lastIndex \<le> length line \<and> \<not> limitHit st)"
  using assms
proof (induction rule: regexLoop.raw_induct[rotated 1, consumes 1])
  case (1 loop options token re fileUri lineNumber line lastIndex st r)
  show ?case
  proof
    assume a: "re = empty_match \<and> maxResults options = None \<and> (\<forall>n. \<not> token n)
            \<and> lastIndex \<le> length line \<and> \<not> limitHit st"
    then have e: "exec re line lastIndex = (Some (lastIndex, 0), lastIndex)"
      by (simp add: exec_def empty_match_def)
    let ?st = "report fileUri lineNumber line lastIndex 0 (polled st)"
    from 1(2) a e have "loop options token re fileUri lineNumber line lastIndex ?st = Some r"
      by (simp add: isCancellationRequested_def limit_reached_def)
    from 1(1)[OF this] a show False by simp
  qed
qed

lemma literal_re_nonempty:
  assumes "searchString \<noteq> []"
  shows "nonempty_matches (literal_re searchString) line"
  unfolding nonempty_matches_def literal_re_def
  using find_upt_Some[of "occurs_at line searchString"] assms
  by (auto simp: indexOf_nonempty[OF assms] split: option.splits)

text \<open>
  C8.  When the expression finds only matches that are not empty on the line, the loop
  over the matches of the line ends, whatever the cap and the token, and the start
  columns of the matches it reports increase strictly.  The condition is needed: with an
  expression that matches the empty string, no cap and no cancellation, the loop does not
  end.
\<close>

theorem regex_matches_enumerated:
  assumes "nonempty_matches re line"
  shows "(\<exists>b st' new. regexLoop options token re fileUri lineNumber line 0 st = Some (b, st')
            \<and> progress st' = progress st @ new
            \<and> sorted_wrt (<) (start_columns new))
       \<and> (\<forall>st0. \<not> limitHit st0 \<longrightarrow>
             regexLoop \<lparr>includePaths = None, maxResults = None\<rparr> never empty_match fileUri
               lineNumber line 0 st0 = None)"
proof
  from regexLoop_nonempty[OF assms, of options token fileUri lineNumber 0 st]
  show "\<exists>b st' new. regexLoop options token re fileUri lineNumber line 0 st = Some (b, st')
            \<and> progress st' = progress st @ new
            \<and> sorted_wrt (<) (start_columns new)"
    by blast
next
  show "\<forall>st0. \<not> limitHit st0 \<longrightarrow>
             regexLoop \<lparr>includePaths = None, maxResults = None\<rparr> never empty_match fileUri
               lineNumber line 0 st0 = None"
  proof (intro allI impI)
    fix st0 :: tstate
    assume nl: "\<not> limitHit st0"
    show "regexLoop \<lparr>includePaths = None, maxResults = None\<rparr> never empty_match fileUri
               lineNumber line 0 st0 = None"
    proof (rule ccontr)
      assume "regexLoop \<lparr>includePaths = None, maxResults = None\<rparr> never empty_match fileUri
               lineNumber line 0 st0 \<noteq> None"
      then obtain r where "regexLoop \<lparr>includePaths = None, maxResults = None\<rparr> never
               empty_match fileUri lineNumber line 0 st0 = Some r"
        by blast
      from regexLoop_empty_match_diverges[OF this] nl show False
        by (simp add: never_def)
    qed
  qed
qed

theorem regex_matches_enumerated_witness:
  "nonempty_matches (literal_re ''o'') ''foo''
   \<and> regexLoop \<lparr>includePaths = None, maxResults = None\<rparr> never (literal_re ''o'') a_txt 0
         ''foo'' 0 initial_tstate
       = Some (False, \<lparr>polls = 2, limitHit = False, resultCount = 2,
                         progress = [match_at a_txt 0 ''foo'' 1 1, match_at a_txt 0 ''foo'' 2 1]\<rparr>)
   \<and> sorted_wrt (<)
        (start_columns [match_at a_txt 0 ''foo'' 1 1, match_at a_txt 0 ''foo'' 2 1])"
proof -
  have h: "nonempty_matches (literal_re ''o'') ''foo''"
    by (rule literal_re_nonempty) simp
  have e: "regexLoop \<lparr>includePaths = None, maxResults = None\<rparr> never (literal_re ''o'') a_txt 0
         ''foo'' 0 initial_tstate
       = Some (False, \<lparr>polls = 2, limitHit = False, resultCount = 2,
                         progress = [match_at a_txt 0 ''foo'' 1 1, match_at a_txt 0 ''foo'' 2 1]\<rparr>)"
    by (simp add: initial_tstate_def match_at_def regexLoop.simps exec_def literal_re_def
          search_defs)
  from regex_matches_enumerated[OF h, THEN conjunct1,
         of "\<lparr>includePaths = None, maxResults = None\<rparr>" never a_txt 0 initial_tstate] e
  have "sorted_wrt (<)
        (start_columns [match_at a_txt 0 ''foo'' 1 1, match_at a_txt 0 ''foo'' 2 1])"
    by (auto simp: initial_tstate_def)
  with h e show ?thesis by blast
qed

section \<open>The recursive copy\<close>

lemma copy_ignores_overwrite:
  "copyDirectory fuel this_scheme s source destination True
     = copyDirectory fuel this_scheme s source destination False"
  "copyEntries fuel this_scheme s source destination True entries
     = copyEntries fuel this_scheme s source destination False entries"
proof (induction fuel this_scheme s source destination "True" 
         and fuel this_scheme s source destination "True" entries
       rule: copyDirectory_copyEntries.induct)
  case (1 this_scheme s source destination)
  then show ?case by simp
next
  case (2 fuel this_scheme s source destination)
  then show ?case
    by (simp split: sum.splits)
next
  case (3 fuel this_scheme s source destination)
  then show ?case by simp
next
  case (4 fuel this_scheme s source destination entry entries)
  then show ?case
    by (simp split: sum.splits option.splits prod.splits)
qed

lemma unrelated_append: "unrelated a b \<Longrightarrow> unrelated (a @ r) (b @ r')"
  unfolding unrelated_def
  by (metis prefix_append prefix_order.dual_order.trans prefix_same_cases prefixI)

lemma unrelated_sym: "unrelated a b \<Longrightarrow> unrelated b a"
  by (auto simp: unrelated_def)

lemma unrelated_siblings: "e \<noteq> e' \<Longrightarrow> unrelated (p @ [e]) (p @ e' # r)"
  by (auto simp: unrelated_def)

lemma mkdirp_other:
  "mkdirp t p = Inr t' \<Longrightarrow> unrelated p q \<Longrightarrow> resolve t' q = resolve t q"
proof (induction t p arbitrary: t' q rule: mkdirp.induct)
  case (3 es x xs)
  show ?case
  proof (cases q)
    case Nil
    with 3(4) show ?thesis by (simp add: unrelated_def)
  next
    case (Cons y ys)
    show ?thesis
    proof (cases "map_of es x")
      case None
      with 3(3) obtain c where c: "mkdirp (Directory []) xs = Inr c"
        and t': "t' = Directory (AList.update x c es)"
        by (auto split: sum.splits)
      show ?thesis
      proof (cases "x = y")
        case True
        with 3(4) Cons have "unrelated xs ys" by (simp add: unrelated_def)
        from 3(1)[OF None c this] have "resolve c ys = resolve (Directory []) ys" .
        moreover have "ys \<noteq> []" using \<open>unrelated xs ys\<close> by (auto simp: unrelated_def)
        ultimately show ?thesis
          using None True Cons t' by (cases ys) (auto simp: update_conv')
      next
        case False
        with Cons t' show ?thesis by (simp add: update_conv')
      qed
    next
      case (Some c0)
      with 3(3) obtain c where c: "mkdirp c0 xs = Inr c"
        and t': "t' = Directory (AList.update x c es)"
        by (auto split: sum.splits)
      show ?thesis
      proof (cases "x = y")
        case True
        with 3(4) Cons have "unrelated xs ys" by (simp add: unrelated_def)
        from 3(2)[OF Some c this] show ?thesis
          using Some True Cons t' by (simp add: update_conv')
      next
        case False
        with Cons t' show ?thesis by (simp add: update_conv')
      qed
    qed
  qed
qed (auto simp: unrelated_def)

lemma unrelated_child: "unrelated p q \<Longrightarrow> unrelated (p @ [e]) q"
  unfolding unrelated_def
  by (metis append_Nil2 prefix_append prefix_order.dual_order.trans prefix_same_cases prefixI
        unrelated_append unrelated_def)

lemma resolve_below_file:
  "resolve t p = Inr (File d) \<Longrightarrow> resolve t (p @ rel) = Inr (File c) \<Longrightarrow> rel = [] \<and> c = d"
  by (cases rel) (auto simp: resolve_append)

lemma resolve_below_dir:
  "resolve t p = Inr (Directory es) \<Longrightarrow> resolve t (p @ rel) = Inr (File c)
   \<Longrightarrow> \<exists>x rel'. rel = x # rel' \<and> x \<in> set (map fst es)"
  by (cases rel) (force simp: resolve_append split: option.splits dest: map_of_SomeD)+

lemma tsize_cong: "resolve s' p = resolve s p \<Longrightarrow> tsize s' p = tsize s p"
  by (simp add: tsize_def)

lemma asFsPath_ok: "scheme u = this_scheme \<Longrightarrow> asFsPath this_scheme u = Inr (path u)"
  by (simp add: asFsPath_def)

lemma copyEntries_step:
  assumes IH: "\<And>t src dst. scheme src = this_scheme \<Longrightarrow> scheme dst = this_scheme
      \<Longrightarrow> unrelated (path src) (path dst) \<Longrightarrow> tsize t (path src) < k
      \<Longrightarrow> \<exists>res s'. copyDirectory k this_scheme t src dst ov = Some (res, s')
            \<and> (res = None \<longrightarrow> same_outside (path dst) t s' \<and> copied t s' (path src) (path dst))"
    and sch: "scheme source = this_scheme" "scheme destination = this_scheme"
    and un: "unrelated (path source) (path destination)"
    and sz: "tsize t (path source) \<le> k"
  shows "(\<exists>err s1. copyEntries k this_scheme t source destination ov (e # es)
                     = Some (Some err, s1))
       \<or> (\<exists>s1. copyEntries k this_scheme t source destination ov (e # es)
                   = copyEntries k this_scheme s1 source destination ov es
              \<and> same_outside (path destination @ [e]) t s1
              \<and> copied t s1 (path source @ [e]) (path destination @ [e]))"
proof -
  let ?sp = "path source" and ?dp = "path destination"
  have ps: "asFsPath this_scheme (joinPath source e) = Inr (?sp @ [e])"
    and pd: "asFsPath this_scheme (joinPath destination e) = Inr (?dp @ [e])"
    using sch by (simp_all add: asFsPath_def joinPath_def)
  show ?thesis
  proof (cases "fs_stat t (?sp @ [e])")
    case (Inl err)
    then show ?thesis by (simp add: ps)
  next
    case (Inr stats)
    show ?thesis
    proof (cases "isDirectory stats")
      case True
      have "tsize t (?sp @ [e]) < tsize t ?sp"
        using tsize_child[of t ?sp e] Inr by (simp add: path_join_def)
      with sz have "tsize t (path (joinPath source e)) < k"
        by (simp add: joinPath_def)
      moreover have "unrelated (path (joinPath source e)) (path (joinPath destination e))"
        using un by (simp add: joinPath_def unrelated_append)
      ultimately obtain res s1 where
        c: "copyDirectory k this_scheme t (joinPath source e) (joinPath destination e) ov
              = Some (res, s1)"
        and ok: "res = None \<longrightarrow> same_outside (?dp @ [e]) t s1 \<and> copied t s1 (?sp @ [e]) (?dp @ [e])"
        using IH[of "joinPath source e" "joinPath destination e" t] sch
        by (auto simp: joinPath_def)
      show ?thesis
      proof (cases res)
        case None
        with c ok Inr True show ?thesis by (auto simp: ps)
      next
        case (Some err)
        with c Inr True show ?thesis by (simp add: ps)
      qed
    next
      case False
      show ?thesis
      proof (cases "fs_readFile t (?sp @ [e])")
        case (Inl err)
        with Inr False show ?thesis by (simp add: ps)
      next
        case rd: (Inr data)
        show ?thesis
        proof (cases "fs_writeFile t (?dp @ [e]) data W")
          case (Inl err)
          with Inr False rd show ?thesis by (simp add: ps pd)
        next
          case wr: (Inr s1)
          from fs_writeFile_result[OF wr]
          have s1: "s1 = put t (?dp @ [e]) (File data)"
            and r1: "resolve s1 (?dp @ [e]) = Inr (File data)"
            by auto
          have "same_outside (?dp @ [e]) t s1"
            unfolding same_outside_def s1
            by (auto simp: unrelated_def resolve_put_other)
          moreover have "copied t s1 (?sp @ [e]) (?dp @ [e])"
          proof -
            from rd have "resolve t (?sp @ [e]) = Inr (File data)"
              by (auto simp: fs_readFile_def split: sum.splits node.splits)
            from resolve_below_file[OF this] r1 show ?thesis
              unfolding copied_def by fastforce
          qed
          ultimately show ?thesis
            using Inr False rd wr by (auto simp: ps pd)
        qed
      qed
    qed
  qed
qed

lemma copyEntries_total:
  assumes IH: "\<And>t src dst. scheme src = this_scheme \<Longrightarrow> scheme dst = this_scheme
      \<Longrightarrow> unrelated (path src) (path dst) \<Longrightarrow> tsize t (path src) < k
      \<Longrightarrow> \<exists>res s'. copyDirectory k this_scheme t src dst ov = Some (res, s')
            \<and> (res = None \<longrightarrow> same_outside (path dst) t s' \<and> copied t s' (path src) (path dst))"
    and sch: "scheme source = this_scheme" "scheme destination = this_scheme"
    and un: "unrelated (path source) (path destination)"
    and sz: "tsize t (path source) \<le> k"
  shows "\<exists>res s'. copyEntries k this_scheme t source destination ov entries = Some (res, s')
           \<and> (res = None \<longrightarrow>
                 (\<forall>q. (\<forall>e \<in> set entries. unrelated (path destination @ [e]) q)
                       \<longrightarrow> resolve s' q = resolve t q)
               \<and> (\<forall>e \<in> set entries. copied t s' (path source @ [e]) (path destination @ [e])))"
  using sz
proof (induction entries arbitrary: t)
  case Nil
  then show ?case by simp
next
  case (Cons e es)
  let ?sp = "path source" and ?dp = "path destination"
  from copyEntries_step[OF IH sch un Cons.prems, of e es]
  consider (err) err s1 where
      "copyEntries k this_scheme t source destination ov (e # es) = Some (Some err, s1)"
    | (go) s1 where
      "copyEntries k this_scheme t source destination ov (e # es)
         = copyEntries k this_scheme s1 source destination ov es"
      "same_outside (?dp @ [e]) t s1" "copied t s1 (?sp @ [e]) (?dp @ [e])"
    by blast
  then show ?case
  proof cases
    case err
    then show ?thesis by simp
  next
    case go
    have src_same: "resolve s1 (?sp @ r) = resolve t (?sp @ r)" for r
    proof -
      have "unrelated (?dp @ [e]) (?sp @ r)"
        using un unrelated_append[of ?dp ?sp "[e]" r] by (simp add: unrelated_sym)
      with go(2) show ?thesis by (simp add: same_outside_def)
    qed
    from src_same[of "[]"] Cons.prems have "tsize s1 ?sp \<le> k"
      by (simp add: tsize_def)
    from Cons.IH[OF this] obtain res s' where
      r: "copyEntries k this_scheme s1 source destination ov es = Some (res, s')"
      and frame: "res = None \<Longrightarrow> (\<forall>e \<in> set es. unrelated (?dp @ [e]) q)
                    \<Longrightarrow> resolve s' q = resolve s1 q"
      and cont: "res = None \<Longrightarrow> e' \<in> set es \<Longrightarrow> copied s1 s' (?sp @ [e']) (?dp @ [e'])"
      for q e'
      by blast
    have "resolve s' q = resolve t q"
      if "res = None" and "\<forall>x \<in> set (e # es). unrelated (?dp @ [x]) q" for q
    proof -
      from that have "resolve s' q = resolve s1 q" by (intro frame) auto
      moreover from that go(2) have "resolve s1 q = resolve t q"
        by (simp add: same_outside_def)
      ultimately show ?thesis by simp
    qed
    moreover have "copied t s' (?sp @ [x]) (?dp @ [x])"
      if "res = None" and x: "x \<in> set (e # es)" for x
    proof (cases "x \<in> set es")
      case True
      from cont[OF that(1) True] src_same show ?thesis
        by (simp add: copied_def)
    next
      case False
      with x have xe: "x = e" by simp
      have "resolve s' (?dp @ e # rel) = resolve s1 (?dp @ e # rel)" for rel
      proof (intro frame[OF that(1)] ballI)
        fix e'
        assume "e' \<in> set es"
        with False xe have "e' \<noteq> e" by auto
        then show "unrelated (?dp @ [e']) (?dp @ e # rel)"
          by (rule unrelated_siblings)
      qed
      with go(3) xe show ?thesis
        by (simp add: copied_def)
    qed
    ultimately show ?thesis
      using go(1) r by auto
  qed
qed

lemma copyDirectory_total:
  assumes "scheme source = this_scheme" and "scheme destination = this_scheme"
    and "unrelated (path source) (path destination)"
    and "tsize s (path source) < fuel"
  shows "\<exists>res s'. copyDirectory fuel this_scheme s source destination ov = Some (res, s')
           \<and> (res = None \<longrightarrow> same_outside (path destination) s s'
                               \<and> copied s s' (path source) (path destination))"
  using assms
proof (induction fuel arbitrary: s source destination)
  case 0
  then show ?case by simp
next
  case (Suc k)
  let ?sp = "path source" and ?dp = "path destination"
  note ps = asFsPath_ok[OF Suc.prems(1)] and pd = asFsPath_ok[OF Suc.prems(2)]
  show ?case
  proof (cases "if \<not> fs_exists s ?dp then fs_mkdir s ?dp else Inr s")
    case (Inl err)
    then show ?thesis by (simp add: ps pd)
  next
    case mk: (Inr s1)
    have out1: "same_outside ?dp s s1"
      using mk mkdirp_other[of s ?dp s1]
      by (auto simp: same_outside_def fs_mkdir_def split: if_splits)
    have src1: "resolve s1 (?sp @ r) = resolve s (?sp @ r)" for r
    proof -
      have "unrelated ?dp (?sp @ r)"
        using Suc.prems(3) unrelated_append[of ?dp ?sp "[]" r] by (simp add: unrelated_sym)
      with out1 show ?thesis by (simp add: same_outside_def)
    qed
    show ?thesis
    proof (cases "fs_readdir s1 ?sp")
      case (Inl err)
      with mk show ?thesis by (simp add: ps pd)
    next
      case rd: (Inr entries)
      then obtain es where es: "resolve s1 ?sp = Inr (Directory es)" and en: "entries = map fst es"
        by (auto simp: fs_readdir_def split: sum.splits node.splits)
      have "tsize s1 ?sp \<le> k"
        using src1[of "[]"] Suc.prems(4) by (simp add: tsize_def)
      from copyEntries_total[OF Suc.IH Suc.prems(1,2,3) this, where entries = entries]
      obtain res s' where
        r: "copyEntries k this_scheme s1 source destination ov entries = Some (res, s')"
        and frame: "res = None \<Longrightarrow> (\<forall>e \<in> set entries. unrelated (?dp @ [e]) q)
                      \<Longrightarrow> resolve s' q = resolve s1 q"
        and cont: "res = None \<Longrightarrow> e \<in> set entries \<Longrightarrow> copied s1 s' (?sp @ [e]) (?dp @ [e])"
        for q e
        by blast
      have c: "copyDirectory (Suc k) this_scheme s source destination ov = Some (res, s')"
        using mk rd r by (simp add: ps pd)
      have "same_outside ?dp s s'" if "res = None"
        unfolding same_outside_def
      proof (intro allI impI)
        fix q
        assume q: "unrelated ?dp q"
        then have "resolve s' q = resolve s1 q"
          by (intro frame[OF that] ballI unrelated_child)
        with out1 q show "resolve s' q = resolve s q"
          by (simp add: same_outside_def)
      qed
      moreover have "copied s s' ?sp ?dp" if "res = None"
        unfolding copied_def
      proof (intro allI impI)
        fix rel content
        assume "resolve s (?sp @ rel) = Inr (File content)"
        then have f: "resolve s1 (?sp @ rel) = Inr (File content)"
          by (simp add: src1)
        from resolve_below_dir[OF es f] obtain x rel' where
          rel: "rel = x # rel'" and x: "x \<in> set entries"
          using en by auto
        from cont[OF that x] f rel show "resolve s' (?dp @ rel) = Inr (File content)"
          by (simp add: copied_def)
      qed
      ultimately show ?thesis
        using c by blast
    qed
  qed
qed

lemma copy_fuel_Suc:
  "copyDirectory fuel this_scheme s source destination ov = Some r
     \<Longrightarrow> copyDirectory (Suc fuel) this_scheme s source destination ov = Some r"
  "copyEntries fuel this_scheme s source destination ov entries = Some r
     \<Longrightarrow> copyEntries (Suc fuel) this_scheme s source destination ov entries = Some r"
proof (induction fuel this_scheme s source destination ov
         and fuel this_scheme s source destination ov entries
       arbitrary: r and r
       rule: copyDirectory_copyEntries.induct)
  case (1 this_scheme s source destination ov)
  then show ?case by simp
next
  case (2 fuel this_scheme s source destination ov)
  show ?case
  proof (cases "asFsPath this_scheme source")
    case (Inl err)
    with 2(2) show ?thesis by simp
  next
    case sp: (Inr sourcePath)
    show ?thesis
    proof (cases "asFsPath this_scheme destination")
      case (Inl err)
      with 2(2) sp show ?thesis by simp
    next
      case dp: (Inr destPath)
      show ?thesis
      proof (cases "if \<not> fs_exists s destPath then fs_mkdir s destPath else Inr s")
        case (Inl err)
        with 2(2) sp dp show ?thesis by simp
      next
        case mk: (Inr s1)
        show ?thesis
        proof (cases "fs_readdir s1 sourcePath")
          case (Inl err)
          with 2(2) sp dp mk show ?thesis by simp
        next
          case rd: (Inr entries)
          with 2(2) sp dp mk have
            "copyEntries fuel this_scheme s1 source destination ov entries = Some r"
            by simp
          from 2(1)[OF sp dp mk rd this] sp dp mk rd show ?thesis
            by (simp del: copyEntries.simps)
        qed
      qed
    qed
  qed
next
  case (3 fuel this_scheme s source destination ov)
  then show ?case by simp
next
  case (4 fuel this_scheme s source destination ov entry entries)
  show ?case
  proof (cases "asFsPath this_scheme (joinPath source entry)")
    case (Inl err)
    with 4(4) show ?thesis by simp
  next
    case sp: (Inr childSourcePath)
    show ?thesis
    proof (cases "fs_stat s childSourcePath")
      case (Inl err)
      with 4(4) sp show ?thesis by simp
    next
      case st: (Inr stats)
      show ?thesis
      proof (cases "isDirectory stats")
        case True
        from 4(4) sp st True obtain res s1 where
          c: "copyDirectory fuel this_scheme s (joinPath source entry)
                (joinPath destination entry) ov = Some (res, s1)"
          by (auto split: option.splits)
        from 4(1)[OF sp st True c] have
          c': "copyDirectory (Suc fuel) this_scheme s (joinPath source entry)
                (joinPath destination entry) ov = Some (res, s1)" .
        show ?thesis
        proof (cases res)
          case None
          with 4(4) sp st True c have
            "copyEntries fuel this_scheme s1 source destination ov entries = Some r"
            by simp
          from 4(2)[OF sp st True c refl None this]
          have "copyEntries (Suc fuel) this_scheme s1 source destination ov entries = Some r"
            by simp
          with sp st True c' None show ?thesis
            by (simp del: copyDirectory.simps)
        next
          case (Some err)
          with 4(4) sp st True c have "r = (Some err, s1)"
            by simp
          with sp st True c' Some show ?thesis
            by (simp del: copyDirectory.simps)
        qed
      next
        case False
        show ?thesis
        proof (cases "fs_readFile s childSourcePath")
          case (Inl err)
          with 4(4) sp st False show ?thesis by simp
        next
          case rd: (Inr data)
          show ?thesis
          proof (cases "asFsPath this_scheme (joinPath destination entry)")
            case (Inl err)
            with 4(4) sp st False rd show ?thesis by simp
          next
            case dp: (Inr childDestinationPath)
            show ?thesis
            proof (cases "fs_writeFile s childDestinationPath data W")
              case (Inl err)
              with 4(4) sp st False rd dp show ?thesis by simp
            next
              case wr: (Inr s1)
              with 4(4) sp st False rd dp have
                "copyEntries fuel this_scheme s1 source destination ov entries = Some r"
                by simp
              from 4(3)[OF sp st False rd dp wr this] sp st False rd dp wr show ?thesis
                by simp
            qed
          qed
        qed
      qed
    qed
  qed
qed

lemma copyDirectory_fuel_mono:
  "copyDirectory fuel this_scheme s source destination ov = Some r
     \<Longrightarrow> copyDirectory (fuel + n) this_scheme s source destination ov = Some r"
  by (induction n) (auto dest: copy_fuel_Suc(1))

lemma copyDirectory_success:
  assumes "scheme source = this_scheme" and "scheme destination = this_scheme"
    and "unrelated (path source) (path destination)"
    and c: "copyDirectory fuel this_scheme s source destination ov = Some (None, s')"
  shows "copied s s' (path source) (path destination)"
proof -
  let ?n = "Suc (tsize s (path source))"
  have "tsize s (path source) < fuel + ?n" by simp
  from copyDirectory_total[OF assms(1-3) this, of ov] copyDirectory_fuel_mono[OF c, of ?n]
  show ?thesis by auto
qed

lemma resolve_prefix_exists:
  "resolve s p = Inr n \<Longrightarrow> prefix q p \<Longrightarrow> \<exists>m. resolve s q = Inr m"
  by (auto simp: prefix_def resolve_append split: sum.splits)

lemma ensureParentDirectory_source:
  assumes e: "ensureParentDirectory s dp = Inr s1" and ex: "fs_exists s sp"
    and un: "unrelated sp dp"
  shows "resolve s1 (sp @ r) = resolve s (sp @ r)"
proof (cases "dirname dp \<noteq> dp \<and> \<not> fs_exists s (dirname dp)")
  case False
  with e show ?thesis by (auto simp: ensureParentDirectory_def Let_def)
next
  case True
  with e have mk: "mkdirp s (butlast dp) = Inr s1"
    by (auto simp: ensureParentDirectory_def Let_def fs_mkdir_def dirname_def)
  from ex obtain n where n: "resolve s sp = Inr n"
    by (auto simp: fs_exists_def lookup_def split: sum.splits)
  have 1: "\<not> prefix (butlast dp) (sp @ r)"
  proof
    assume "prefix (butlast dp) (sp @ r)"
    then have "prefix (butlast dp) sp \<or> prefix sp (butlast dp)"
      by (meson prefix_same_cases prefixI)
    then show False
    proof
      assume "prefix (butlast dp) sp"
      from resolve_prefix_exists[OF n this] True show False
        by (auto simp: fs_exists_def lookup_def dirname_def)
    next
      assume "prefix sp (butlast dp)"
      then have "prefix sp dp" by (rule prefix_butlast)
      with un show False by (simp add: unrelated_def)
    qed
  qed
  have 2: "\<not> prefix (sp @ r) (butlast dp)"
  proof
    assume "prefix (sp @ r) (butlast dp)"
    then have "prefix sp dp"
      by (meson append_prefixD prefix_butlast)
    with un show False by (simp add: unrelated_def)
  qed
  from mkdirp_other[OF mk] 1 2 show ?thesis
    by (simp add: unrelated_def)
qed

lemma copy_success:
  assumes sch: "scheme source = this_scheme" "scheme destination = this_scheme"
    and un: "unrelated (path source) (path destination)"
    and c: "copy fuel this_scheme s source destination ov = Some (None, s')"
  shows "copied s s' (path source) (path destination)"
proof -
  let ?sp = "path source" and ?dp = "path destination"
  note ps = asFsPath_ok[OF sch(1)] and pd = asFsPath_ok[OF sch(2)]
  from c have t: "copy_try fuel this_scheme s source destination ?sp ?dp ov = Some (None, s')"
    by (auto simp: copy_def ps pd split: option.splits prod.splits)
  then have ex: "fs_exists s ?sp"
    by (auto simp: copy_try_def split: if_splits)
  from t obtain s1 stats where
    e: "ensureParentDirectory s ?dp = Inr s1" and st: "fs_stat s1 ?sp = Inr stats"
    by (auto simp: copy_try_def split: if_splits sum.splits)
  note src = ensureParentDirectory_source[OF e ex un]
  show ?thesis
  proof (cases "isDirectory stats")
    case True
    with t e st have "copyDirectory fuel this_scheme s1 source destination ov = Some (None, s')"
      by (auto simp: copy_try_def split: if_splits)
    from copyDirectory_success[OF sch un this] src show ?thesis
      by (simp add: copied_def)
  next
    case False
    with t e st obtain data where rd: "fs_readFile s1 ?sp = Inr data"
      and wr: "fs_writeFile s1 ?dp data W = Inr s'"
      by (auto simp: copy_try_def split: if_splits sum.splits)
    from rd have f: "resolve s1 ?sp = Inr (File data)"
      by (auto simp: fs_readFile_def split: sum.splits node.splits)
    from fs_writeFile_result[OF wr, THEN conjunct2] have "resolve s' ?dp = Inr (File data)" .
    with resolve_below_file[OF f] src show ?thesis
      unfolding copied_def by fastforce
  qed
qed

lemma copy_returns:
  assumes sch: "scheme source = this_scheme" "scheme destination = this_scheme"
    and un: "unrelated (path source) (path destination)"
  shows "\<exists>r. copy (Suc (tsize s (path source))) this_scheme s source destination ov = Some r"
proof -
  let ?sp = "path source" and ?dp = "path destination"
  let ?fuel = "Suc (tsize s ?sp)"
  note ps = asFsPath_ok[OF sch(1)] and pd = asFsPath_ok[OF sch(2)]
  have "\<exists>r. copy_try ?fuel this_scheme s source destination ?sp ?dp ov = Some r"
  proof (cases "fs_exists s ?sp \<and> \<not> (fs_exists s ?dp \<and> \<not> ov)")
    case False
    then show ?thesis by (auto simp: copy_try_def)
  next
    case True
    show ?thesis
    proof (cases "ensureParentDirectory s ?dp")
      case (Inl err)
      with True show ?thesis by (auto simp: copy_try_def)
    next
      case (Inr s1)
      from ensureParentDirectory_source[OF Inr _ un, of "[]"] True
      have "tsize s1 ?sp < ?fuel" by (simp add: tsize_def)
      from copyDirectory_total[OF sch un this, of ov] Inr True show ?thesis
        by (auto simp: copy_try_def split: sum.splits)
    qed
  qed
  then show ?thesis
    by (auto simp: copy_def ps pd split: option.splits prod.splits)
qed

lemma fs_readFile_iff: "fs_readFile s p = Inr content \<longleftrightarrow> resolve s p = Inr (File content)"
  by (auto simp: fs_readFile_def split: sum.splits node.splits)

lemma copy_example:
  "copy 3 memfs copy_store src_dir dst_dir True = Some (None, copied_store)"
  by (simp add: copy_def copy_try_def ensureParentDirectory_def fs_mkdir_def joinPath_def
        copy_store_def copied_store_def src_dir_def dst_dir_def memfs_def fs_defs
        eval_nat_numeral)

text \<open>
  C6.  For a source and a destination of the provider's scheme that do not lie within
  one another: \<open>copyDirectory\<close> does the same whatever the \<open>overwrite\<close> flag it is given;
  \<open>copy\<close> returns within a recursion depth that the size of the source bounds; when it
  succeeds, every file at or below the source is, with its bytes, at the same place below
  the destination, whatever was there before; and the flag is looked at once, at the top:
  without \<open>overwrite\<close>, a copy onto an existing destination raises and leaves the store
  as it is.  In the loop over the entries of the source, an entry that reads as a file is
  written to the destination by a truncating write, with no test before it, and a
  truncating write to a path that holds a regular file succeeds and replaces its bytes.
\<close>

theorem copy_overwrite_checked_once:
  assumes "scheme source = this_scheme" and "scheme destination = this_scheme"
    and "unrelated (path source) (path destination)"
  shows "(\<forall>fuel s0. copyDirectory fuel this_scheme s0 source destination True
                     = copyDirectory fuel this_scheme s0 source destination False)
       \<and> (\<exists>fuel r. copy fuel this_scheme s source destination ov = Some r)
       \<and> (\<forall>fuel s'. copy fuel this_scheme s source destination ov = Some (None, s')
             \<longrightarrow> (\<forall>rel content. fs_readFile s (path source @ rel) = Inr content
                    \<longrightarrow> fs_readFile s' (path destination @ rel) = Inr content))
       \<and> (fs_exists s (path source) \<and> fs_exists s (path destination)
             \<longrightarrow> (\<forall>fuel. \<exists>err. copy fuel this_scheme s source destination False
                                  = Some (Some err, s)))
       \<and> (\<forall>fuel s0 entry entries data.
             fs_readFile s0 (path source @ [entry]) = Inr data
             \<longrightarrow> copyEntries fuel this_scheme s0 source destination ov (entry # entries)
                 = (case fs_writeFile s0 (path destination @ [entry]) data W of
                      Inl e \<Rightarrow> Some (Some (Errno e), s0)
                    | Inr s1 \<Rightarrow>
                        copyEntries fuel this_scheme s1 source destination ov entries))
       \<and> (\<forall>s0 p data. fs_stat s0 p = Inr S_IFREG
             \<longrightarrow> (\<exists>s1. fs_writeFile s0 p data W = Inr s1 \<and> fs_readFile s1 p = Inr data))"
proof (intro conjI allI impI)
  fix fuel s0
  show "copyDirectory fuel this_scheme s0 source destination True
          = copyDirectory fuel this_scheme s0 source destination False"
    by (rule copy_ignores_overwrite(1))
next
  fix fuel s0 entry entries data
  assume rd: "fs_readFile s0 (path source @ [entry]) = Inr data"
  from fs_readFile_regular[OF rd] rd
  show "copyEntries fuel this_scheme s0 source destination ov (entry # entries)
          = (case fs_writeFile s0 (path destination @ [entry]) data W of
               Inl e \<Rightarrow> Some (Some (Errno e), s0)
             | Inr s1 \<Rightarrow> copyEntries fuel this_scheme s1 source destination ov entries)"
    using assms(1,2) by (simp add: asFsPath_def joinPath_def)
next
  fix s0 p data
  assume "fs_stat s0 p = Inr S_IFREG"
  then obtain old where "lookup s0 p = Some (File old)"
    by (auto simp: fs_stat_def lookup_def split: sum.splits elim: node_stats.elims)
  then obtain s1 where w: "fs_writeFile s0 p data W = Inr s1"
    by (simp add: fs_writeFile_def)
  from fs_writeFile_result[OF w, THEN conjunct2] w
  show "\<exists>s1. fs_writeFile s0 p data W = Inr s1 \<and> fs_readFile s1 p = Inr data"
    by (simp add: fs_readFile_iff)
next
  from copy_returns[OF assms, of s ov]
  show "\<exists>fuel r. copy fuel this_scheme s source destination ov = Some r"
    by blast
next
  fix fuel s' rel content
  assume "copy fuel this_scheme s source destination ov = Some (None, s')"
    and "fs_readFile s (path source @ rel) = Inr content"
  with copy_success[OF assms, of fuel s ov s']
  show "fs_readFile s' (path destination @ rel) = Inr content"
    by (simp add: copied_def fs_readFile_iff)
next
  fix fuel
  assume "fs_exists s (path source) \<and> fs_exists s (path destination)"
  then show "\<exists>err. copy fuel this_scheme s source destination False = Some (Some err, s)"
    using assms(1,2) by (simp add: copy_def copy_try_def asFsPath_def)
qed

theorem copy_overwrite_checked_once_witness:
  "scheme src_dir = memfs \<and> scheme dst_dir = memfs \<and> unrelated (path src_dir) (path dst_dir)
   \<and> copy 3 memfs copy_store src_dir dst_dir True = Some (None, copied_store)
   \<and> fs_readFile copy_store (path src_dir @ [''sub'', ''g'']) = Inr [2]
   \<and> fs_readFile copy_store (path dst_dir @ [''sub'', ''g'']) = Inr [8]
   \<and> fs_readFile copied_store (path dst_dir @ [''sub'', ''g'']) = Inr [2]"
proof -
  have h: "scheme src_dir = memfs" "scheme dst_dir = memfs"
    "unrelated (path src_dir) (path dst_dir)"
    by (simp_all add: src_dir_def dst_dir_def memfs_def unrelated_def)
  have r: "fs_readFile copy_store (path src_dir @ [''sub'', ''g'']) = Inr [2]"
    "fs_readFile copy_store (path dst_dir @ [''sub'', ''g'']) = Inr [8]"
    by (simp_all add: copy_store_def src_dir_def dst_dir_def fs_defs)
  from copy_overwrite_checked_once[OF h, of copy_store True, THEN conjunct2, THEN conjunct2,
         THEN conjunct1, rule_format, OF copy_example r(1)]
  have "fs_readFile copied_store (path dst_dir @ [''sub'', ''g'']) = Inr [2]" .
  with h r copy_example show ?thesis by blast
qed

end
